theory Spec2Isabelle
  imports Main "HOL-Library.Word"
begin

section \<open>Data model\<close>

text \<open>
  The loader \<^verbatim>\<open>grid/load/bigtable/load_data.go\<close> reads test runs from a
  datastore, fetches the JSON report of each run and writes one cell per test result
  (or per subtest result) into a wide-column table.

  Go strings are byte sequences, and so is \<^typ>\<open>string\<close>; \<^verbatim>\<open>[]byte(s)\<close> is the
  string itself. A \<^verbatim>\<open>*string\<close> is a \<^typ>\<open>string option\<close>, \<^verbatim>\<open>nil\<close> being
  \<^term>\<open>None\<close>. The records below carry the fields of \<^verbatim>\<open>shared.TestRun\<close>,
  \<^verbatim>\<open>metrics.TestResults\<close>, \<^verbatim>\<open>metrics.SubTest\<close> and
  \<^verbatim>\<open>metrics.TestResultsReport\<close> that the loader reads. The loop over
  \<^verbatim>\<open>report.Results\<close> passes each entry to \<^verbatim>\<open>rowID\<close> as a
  \<^verbatim>\<open>*metrics.TestResults\<close>, so the entries are pointers: an entry is
  \<^term>\<open>None\<close> for a nil pointer (a \<^verbatim>\<open>null\<close> in the JSON array).
\<close>

type_synonym timestamp = int
  \<comment> \<open>\<^verbatim>\<open>bigtable.Timestamp\<close>: microseconds since the epoch\<close>

record TestRun =
  BrowserName :: string
  BrowserVersion :: string
  OSName :: string
  OSVersion :: string
  FullRevisionHash :: string
  CreatedAt :: int  \<comment> \<open>the instant, in seconds since 1970-01-01T00:00:00Z\<close>
  RawResultsURL :: string

record SubTest =
  sub_Name :: string
  sub_Status :: string
  sub_Message :: "string option"

record TestResults =
  Test :: string
  Status :: string
  Message :: "string option"
  Subtests :: "SubTest list"

record TestResultsReport =
  Results :: "TestResults option list"

section \<open>Formatting an instant as RFC 3339 in UTC\<close>

text \<open>
  \<^verbatim>\<open>run.CreatedAt.UTC().Format(time.RFC3339)\<close> prints the instant in the layout
  \<^verbatim>\<open>2006-01-02T15:04:05Z07:00\<close>: the civil date and time of the proleptic
  Gregorian calendar, no fraction of a second, and \<^verbatim>\<open>Z\<close> for the UTC offset.
  The standard library's \<^verbatim>\<open>appendInt\<close> writes a minus sign for a negative
  number and pads the digits with zeros to the field's width.
\<close>

definition digit_char :: "nat \<Rightarrow> char" where
  "digit_char d = ''0123456789'' ! (d mod 10)"

fun dec_digits :: "nat \<Rightarrow> string" where
  "dec_digits n = (if n < 10 then [digit_char n] else dec_digits (n div 10) @ [digit_char n])"

declare dec_digits.simps [simp del]

definition appendInt :: "int \<Rightarrow> nat \<Rightarrow> string" where
  "appendInt x width =
     (let ds = dec_digits (nat \<bar>x\<bar>)
      in (if x < 0 then ''-'' else '''') @ replicate (width - length ds) CHR ''0'' @ ds)"

text \<open>
  The civil date of a day number (days since 1970-01-01), as the standard library's
  \<^verbatim>\<open>absDate\<close> computes it. The days are counted from 1 January of year 1 (day 719162
  is 1970-01-01; the library counts from a year that is 1 modulo 400, which gives the
  same cycles). The count is cut into cycles of 400 years (146097 days), of 100 years
  (36524 days), of 4 years (1461 days) and of one year (365 days). On the last day of
  a 400-year cycle the quotient by 36524 is 4, and on the last day of a 4-year cycle the
  quotient by 365 is 4: \<^verbatim>\<open>n -= n >> 2\<close> makes them 3. What is left is the day of the
  year, counted from 0.
\<close>

definition year_and_yday :: "int \<Rightarrow> int \<times> int" where
  "year_and_yday days =
     (let d = days + 719162;
          n400 = d div 146097;
          d1 = d mod 146097;
          q100 = d1 div 36524;
          n100 = q100 - q100 div 4;
          d2 = d1 - 36524 * n100;
          n4 = d2 div 1461;
          d3 = d2 mod 1461;
          q1 = d3 div 365;
          n1 = q1 - q1 div 4
      in (1 + 400 * n400 + 100 * n100 + 4 * n4 + n1, d3 - 365 * n1))"

definition isLeap :: "int \<Rightarrow> bool" where
  "isLeap year = (year mod 4 = 0 \<and> (year mod 100 \<noteq> 0 \<or> year mod 400 = 0))"

text \<open>
  \<^verbatim>\<open>daysBefore[m]\<close> counts the days of a common year before month \<open>m + 1\<close>. The month
  of a day of the year: in a leap year day 59 is 29 February and the later days are
  shifted by one; the month is then estimated as if every month had 31 days, an
  estimate that is too low by at most one.
\<close>

definition daysBefore :: "int list" where
  "daysBefore = [0, 31, 59, 90, 120, 151, 181, 212, 243, 273, 304, 334, 365]"

definition month_and_day :: "int \<Rightarrow> int \<Rightarrow> int \<times> int" where
  "month_and_day year yday =
     (if isLeap year \<and> yday = 59 then (2, 29)
      else
        (let day = (if isLeap year \<and> yday > 59 then yday - 1 else yday);
             month = day div 31;
             e = daysBefore ! nat (month + 1)
         in if day \<ge> e then (month + 2, day - e + 1)
            else (month + 1, day - daysBefore ! nat month + 1)))"

definition civil_from_days :: "int \<Rightarrow> int \<times> int \<times> int" where
  "civil_from_days days =
     (let (year, yday) = year_and_yday days;
          (month, day) = month_and_day year yday
      in (year, month, day))"

definition format_RFC3339_UTC :: "int \<Rightarrow> string" where
  "format_RFC3339_UTC t =
     (let (y, m, d) = civil_from_days (t div 86400);
          s = t mod 86400
      in appendInt y 4 @ ''-'' @ appendInt m 2 @ ''-'' @ appendInt d 2 @ ''T'' @
         appendInt (s div 3600) 2 @ '':'' @ appendInt (s mod 3600 div 60) 2 @ '':'' @
         appendInt (s mod 60) 2 @ ''Z'')"

section \<open>Row, column and run identifiers\<close>

definition runID :: "TestRun \<Rightarrow> string" where
  "runID run =
     BrowserName run @ ''-'' @ BrowserVersion run @ ''-'' @ OSName run @ ''-'' @
     OSVersion run @ ''@'' @ FullRevisionHash run @ ''#'' @
     format_RFC3339_UTC (CreatedAt run)"

definition rowID :: "TestResults \<Rightarrow> SubTest option \<Rightarrow> string" where
  "rowID res sub =
     (case sub of
        None \<Rightarrow> Test res
      | Some s \<Rightarrow> Test res @ '':'' @ sub_Name s)"

definition colID :: "TestRun \<Rightarrow> string" where
  "colID run = runID run"

section \<open>Encoding a report into cells\<close>

text \<open>
  The arguments of one call of the closure \<^verbatim>\<open>set(row, family, column, ts, value)\<close>.
\<close>

record set_call =
  c_row :: string
  c_family :: string
  c_column :: string
  c_ts :: timestamp
  c_value :: string

text \<open>The test \<^verbatim>\<open>m != nil && *m != ""\<close> on a message pointer.\<close>

definition has_message :: "string option \<Rightarrow> bool" where
  "has_message m = (case m of None \<Rightarrow> False | Some s \<Rightarrow> s \<noteq> '''')"

text \<open>
  The body of the loop over \<^verbatim>\<open>report.Results\<close> for one result: the calls of
  \<^verbatim>\<open>set\<close> it makes, in order. \<^term>\<open>the (Message res)\<close> stands for
  \<^verbatim>\<open>*res.Message\<close> and is read only under \<^term>\<open>has_message (Message res)\<close>.
\<close>

definition sub_cell :: "string \<Rightarrow> TestRun \<Rightarrow> timestamp \<Rightarrow> TestResults \<Rightarrow> SubTest \<Rightarrow> set_call" where
  "sub_cell outputBTFamily run ts res sub =
     (if has_message (Message res) then
        (if has_message (sub_Message sub) then
           \<lparr>c_row = rowID res None, c_family = outputBTFamily, c_column = colID run, c_ts = ts,
            c_value = Status res @ ''#'' @ the (Message res) @ ''$'' @ sub_Status sub @ ''#'' @
                      the (sub_Message sub)\<rparr>
         else
           \<lparr>c_row = rowID res None, c_family = outputBTFamily, c_column = colID run, c_ts = ts,
            c_value = Status res @ ''#'' @ the (Message res) @ ''$'' @ sub_Status sub\<rparr>)
      else
        (if has_message (sub_Message sub) then
           \<lparr>c_row = rowID res None, c_family = outputBTFamily, c_column = colID run, c_ts = ts,
            c_value = Status res @ ''$'' @ sub_Status sub @ ''#'' @ the (sub_Message sub)\<rparr>
         else
           \<lparr>c_row = rowID res None, c_family = outputBTFamily, c_column = colID run, c_ts = ts,
            c_value = Status res @ ''$'' @ sub_Status sub\<rparr>))"

definition result_cells :: "string \<Rightarrow> TestRun \<Rightarrow> timestamp \<Rightarrow> TestResults \<Rightarrow> set_call list" where
  "result_cells outputBTFamily run ts res =
     (if length (Subtests res) = 0 then
        (if has_message (Message res) then
           [\<lparr>c_row = rowID res None, c_family = outputBTFamily, c_column = colID run, c_ts = ts,
             c_value = Status res @ ''#'' @ the (Message res)\<rparr>]
         else
           [\<lparr>c_row = rowID res None, c_family = outputBTFamily, c_column = colID run, c_ts = ts,
             c_value = Status res\<rparr>])
      else map (sub_cell outputBTFamily run ts res) (Subtests res))"


section \<open>The outside world of one task\<close>

text \<open>
  What \<^verbatim>\<open>http.Get\<close> followed by \<^verbatim>\<open>ioutil.ReadAll(resp.Body)\<close> can give: an
  error of the request, or a response with its status code and what reading its body
  gives.
\<close>

datatype body_read = ReadError | Data string

datatype http_result = NetworkError | Response int body_read

text \<open>
  One operation \<^verbatim>\<open>Mutation.Set(family, column, ts, value)\<close>; a mutation holds the
  operations applied to it so far. The closure \<^verbatim>\<open>set\<close> keeps pointers to
  mutations and writes through them after storing them, so mutations live in a heap and
  a pointer is an index into it.
\<close>

datatype set_op = SetCell string string timestamp string

type_synonym mutation = "set_op list"

type_synonym mut_ref = nat

text \<open>The pair \<^verbatim>\<open>(errs, err)\<close> that \<^verbatim>\<open>tbl.ApplyBulk\<close> returns.\<close>

datatype bulk_result = BulkResult (errs: "string list") (err: "string option")

text \<open>
  The answers of the outside world to one task: the HTTP request for a URL, the JSON
  decoder (\<^term>\<open>None\<close> for an error of \<^verbatim>\<open>json.Unmarshal\<close>), and the store's answer
  to the bulk write with a given number of earlier bulk writes of the task.
\<close>

record env =
  http_Get :: "string \<Rightarrow> http_result"
  json_Unmarshal :: "string \<Rightarrow> TestResultsReport option"
  ApplyBulk :: "nat \<Rightarrow> string list \<Rightarrow> mutation list \<Rightarrow> bulk_result"

datatype log_line =
    Warn_load_failed string TestRun
  | Warn_non_OK_status int string TestRun
  | Warn_read_failed string TestRun
  | Warn_unmarshal_failed string TestRun
  | Warn_empty_report string string
  | Info_gathering nat
  | Erro_some_writes_failed "string list"
  | Erro_bulk_write_failed string
  | Info_bulk_write_success nat string
  | Info_monitor_OK "64 word"
  | Info_finished nat

fun is_warning :: "log_line \<Rightarrow> bool" where
  "is_warning (Warn_load_failed _ _) = True"
| "is_warning (Warn_non_OK_status _ _ _) = True"
| "is_warning (Warn_read_failed _ _) = True"
| "is_warning (Warn_unmarshal_failed _ _) = True"
| "is_warning (Warn_empty_report _ _) = True"
| "is_warning _ = False"

text \<open>
  What ends the whole process: \<^verbatim>\<open>log.Fatal\<close>, or a run-time panic in any goroutine.
\<close>

datatype fault = Fatal string | Panic string

section \<open>Fetching the report of a run\<close>

text \<open>
  Lines 126 to 150 of the task: each early \<^verbatim>\<open>return\<close> is \<^term>\<open>Inl\<close> of the
  warning logged just before it. \<^verbatim>\<open>http.StatusOK\<close> is 200.
\<close>

definition fetch_report :: "env \<Rightarrow> TestRun \<Rightarrow> log_line + TestResultsReport" where
  "fetch_report env run =
     (case http_Get env (RawResultsURL run) of
        NetworkError \<Rightarrow> Inl (Warn_load_failed (RawResultsURL run) run)
      | Response StatusCode body \<Rightarrow>
          if StatusCode \<noteq> 200 then Inl (Warn_non_OK_status StatusCode (RawResultsURL run) run)
          else
            (case body of
               ReadError \<Rightarrow> Inl (Warn_read_failed (RawResultsURL run) run)
             | Data data \<Rightarrow>
                 (case json_Unmarshal env data of
                    None \<Rightarrow> Inl (Warn_unmarshal_failed (RawResultsURL run) run)
                  | Some report \<Rightarrow>
                      if length (Results report) = 0
                      then Inl (Warn_empty_report (runID run) (RawResultsURL run))
                      else Inr report)))"

section \<open>The batch of pending mutations\<close>

text \<open>
  The variables the closure \<^verbatim>\<open>set\<close> captures, with the heap of mutations, the
  bulk writes issued so far (each with the row keys and the contents of the mutations
  it was given) and the lines logged so far.
\<close>

record task_state =
  heap :: "mutation list"
  muts :: "mut_ref list"
  rows :: "string list"
  bulk_calls :: "(string list \<times> mutation list) list"
  task_log :: "log_line list"

definition init_task :: "log_line list \<Rightarrow> task_state" where
  "init_task l = \<lparr>heap = [], muts = [], rows = [], bulk_calls = [], task_log = l\<rparr>"

text \<open>
  How a part of a task ends: with the state it has reached (\<^term>\<open>Inr\<close>), or with a
  fault and the state in which the fault was raised (\<^term>\<open>Inl\<close>).
\<close>

type_synonym task_result = "(fault \<times> task_state) + task_state"

text \<open>
  The call \<^verbatim>\<open>tbl.ApplyBulk(ctx, rs, ms)\<close> on the whole pending batch and the
  logging after it (lines 158 to 167 and 207 to 216). The success line reads
  \<^verbatim>\<open>rs[0]\<close>, which panics on an empty batch. Every pointer in \<^term>\<open>muts st\<close> was
  allocated in \<^term>\<open>heap st\<close>.
\<close>

definition apply_bulk :: "env \<Rightarrow> task_state \<Rightarrow> task_result" where
  "apply_bulk env st =
     (let rs = rows st;
          ms = map (\<lambda>m. heap st ! m) (muts st);
          r = ApplyBulk env (length (bulk_calls st)) rs ms;
          st' = st\<lparr>bulk_calls := bulk_calls st @ [(rs, ms)]\<rparr>
      in if length (errs r) > 0 then
           Inr (st'\<lparr>task_log := task_log st' @ [Erro_some_writes_failed (errs r)]\<rparr>)
         else if err r \<noteq> None then
           Inr (st'\<lparr>task_log := task_log st' @ [Erro_bulk_write_failed (the (err r))]\<rparr>)
         else
           (case rs of
              [] \<Rightarrow> Inl (Panic ''index out of range'', st')
            | r0 # _ \<Rightarrow>
                Inr (st'\<lparr>task_log := task_log st' @ [Info_bulk_write_success (length ms) r0]\<rparr>)))"

text \<open>
  The closure \<^verbatim>\<open>set\<close> (lines 155 to 177): allocate the mutation; if the batch is
  full, write it and start a new one; append the pointer and the row key; then write the
  cell into the mutation through the pointer.
\<close>

definition set_cell :: "env \<Rightarrow> nat \<Rightarrow> task_state \<Rightarrow> set_call \<Rightarrow> task_result" where
  "set_cell env maxMutations st c =
     (let mut = length (heap st);
          st0 = st\<lparr>heap := heap st @ [[]]\<rparr>
      in case (if length (muts st0) = maxMutations then
                 (case apply_bulk env st0 of
                    Inl f \<Rightarrow> Inl f
                  | Inr st1 \<Rightarrow> Inr (st1\<lparr>muts := [], rows := []\<rparr>))
               else Inr st0) of
           Inl f \<Rightarrow> Inl f
         | Inr st2 \<Rightarrow>
             (let st3 = st2\<lparr>muts := muts st2 @ [mut], rows := rows st2 @ [c_row c]\<rparr>
              in Inr (st3\<lparr>heap := (heap st3)
                   [mut := heap st3 ! mut @ [SetCell (c_family c) (c_column c) (c_ts c) (c_value c)]]\<rparr>)))"

fun set_cells :: "env \<Rightarrow> nat \<Rightarrow> task_state \<Rightarrow> set_call list \<Rightarrow> task_result" where
  "set_cells env maxMutations st [] = Inr st"
| "set_cells env maxMutations st (c # cs) =
     (case set_cell env maxMutations st c of
        Inl f \<Rightarrow> Inl f
      | Inr st' \<Rightarrow> set_cells env maxMutations st' cs)"

text \<open>Lines 206 to 217: the write of what is left when the results are exhausted.\<close>

definition final_flush :: "env \<Rightarrow> task_state \<Rightarrow> task_result" where
  "final_flush env st = (if length (muts st) > 0 then apply_bulk env st else Inr st)"

section \<open>The task of one run\<close>

text \<open>
  The loop over \<^verbatim>\<open>report.Results\<close> (lines 179 to 204): the calls of
  \<^verbatim>\<open>set\<close> for each result in turn. Reading \<^verbatim>\<open>res.Subtests\<close> through a nil
  pointer panics.
\<close>

fun results_loop ::
  "env \<Rightarrow> nat \<Rightarrow> string \<Rightarrow> TestRun \<Rightarrow> timestamp \<Rightarrow> task_state \<Rightarrow> TestResults option list \<Rightarrow> task_result"
where
  "results_loop env maxMutations outputBTFamily run ts st [] = Inr st"
| "results_loop env maxMutations outputBTFamily run ts st (None # rest) =
     Inl (Panic ''nil pointer dereference'', st)"
| "results_loop env maxMutations outputBTFamily run ts st (Some res # rest) =
     (case set_cells env maxMutations st (result_cells outputBTFamily run ts res) of
        Inl f \<Rightarrow> Inl f
      | Inr st' \<Rightarrow> results_loop env maxMutations outputBTFamily run ts st' rest)"

text \<open>
  The body of the goroutine between acquiring and releasing its permit (lines 126 to
  217). The result is the state the task returns with, or the fault that ends the
  process and the state of the task at that moment.
\<close>

definition run_task :: "env \<Rightarrow> nat \<Rightarrow> string \<Rightarrow> timestamp \<Rightarrow> TestRun \<Rightarrow> task_result" where
  "run_task env maxMutations outputBTFamily ts run =
     (case fetch_report env run of
        Inl warning \<Rightarrow> Inr (init_task [warning])
      | Inr report \<Rightarrow>
          (case results_loop env maxMutations outputBTFamily run ts
                  (init_task [Info_gathering (length (Results report))]) (Results report) of
             Inl f \<Rightarrow> Inl f
           | Inr st \<Rightarrow> final_flush env st))"

section \<open>Constants of the loader\<close>

definition numConcurrentRuns :: nat where
  "numConcurrentRuns = 100"

definition maxMutationsPerBatch :: nat where
  "maxMutationsPerBatch = 100000"

definition maxHeapAlloc :: "64 word" where
  "maxHeapAlloc = 45000000000"

definition monitorSleep :: nat where
  "monitorSleep = 2000000000"
  \<comment> \<open>\<^verbatim>\<open>2 * time.Second\<close>, in nanoseconds\<close>

section \<open>Enumerating the runs\<close>

text \<open>
  \<^verbatim>\<open>datastore.NewQuery("TestRun").Order("CreatedAt")\<close>: the datastore sorts by a
  field in ascending order unless the field name is prefixed with \<^verbatim>\<open>-\<close>.
\<close>

datatype direction = Ascending | Descending

record query =
  q_kind :: string
  q_order :: "(string \<times> direction) list"

definition NewQuery :: "string \<Rightarrow> query" where
  "NewQuery kind = \<lparr>q_kind = kind, q_order = []\<rparr>"

definition Order :: "string \<Rightarrow> query \<Rightarrow> query" where
  "Order fieldName q =
     (case fieldName of
        CHR ''-'' # f \<Rightarrow> q\<lparr>q_order := q_order q @ [(f, Descending)]\<rparr>
      | _ \<Rightarrow> q\<lparr>q_order := q_order q @ [(fieldName, Ascending)]\<rparr>)"

text \<open>
  A datastore key stands for \<^verbatim>\<open>*datastore.Key\<close>. The iterator that
  \<^verbatim>\<open>client.Run(ctx, query)\<close> returns is given by what its successive calls of
  \<^verbatim>\<open>Next\<close> return: \<^verbatim>\<open>iterator.Done\<close>, another error, or the next entity.
\<close>

type_synonym ds_key = nat

datatype next_result = Done | Failed string | Entity ds_key TestRun

type_synonym iterator = "nat \<Rightarrow> next_result"

text \<open>
  The loop of \<^verbatim>\<open>getRuns\<close> (lines 69 to 80), \<open>n\<close> counting the calls of
  \<^verbatim>\<open>it.Next\<close> made so far. \<^verbatim>\<open>log.Fatal\<close> ends the process. The loop does not
  return while the iterator keeps yielding entities: its value is then \<^term>\<open>None\<close>.
\<close>

partial_function (option) getRuns_loop ::
  "iterator \<Rightarrow> nat \<Rightarrow> ds_key list \<Rightarrow> TestRun list \<Rightarrow> (fault + ds_key list \<times> TestRun list) option"
where
  "getRuns_loop it n keys testRuns =
     (case it n of
        Done \<Rightarrow> Some (Inr (keys, testRuns))
      | Failed e \<Rightarrow> Some (Inl (Fatal e))
      | Entity key testRun \<Rightarrow> getRuns_loop it (Suc n) (keys @ [key]) (testRuns @ [testRun]))"

definition getRuns :: "(query \<Rightarrow> iterator) \<Rightarrow> (fault + ds_key list \<times> TestRun list) option" where
  "getRuns client_Run =
     getRuns_loop (client_Run (Order ''CreatedAt'' (NewQuery ''TestRun''))) 0 [] []"

section \<open>One pass of the loader\<close>

text \<open>
  The outside world of the process: what creating the two clients gives (an error, or
  for the datastore a client that answers queries), the successive readings of
  \<^verbatim>\<open>bigtable.Now()\<close>, and the world of the task of each run.
\<close>

record world =
  datastore_NewClient :: "string + (query \<Rightarrow> iterator)"
  bigtable_NewClient :: "string option"
  bigtable_Now :: "nat \<Rightarrow> timestamp"
  task_env :: "nat \<Rightarrow> env"

text \<open>
  What \<^verbatim>\<open>main\<close> does up to spawning the tasks, with what the task of each run does
  when it runs from its first to its last line. The tasks share the store client and
  the semaphore only, so what one task does is independent of the others; how the tasks
  and \<^verbatim>\<open>main\<close> interleave is the subject of the scheduling model below.
\<close>

record pass =
  pass_ts :: timestamp
  pass_runs :: "TestRun list"
  pass_tasks :: "task_result list"

definition main_pass :: "world \<Rightarrow> string \<Rightarrow> (fault + pass) option" where
  "main_pass w outputBTFamily =
     (case datastore_NewClient w of
        Inl e \<Rightarrow> Some (Inl (Fatal e))
      | Inr client_Run \<Rightarrow>
          (case bigtable_NewClient w of
             Some e \<Rightarrow> Some (Inl (Fatal e))
           | None \<Rightarrow>
               (let ts = bigtable_Now w 0 in
                case getRuns client_Run of
                  None \<Rightarrow> None
                | Some (Inl f) \<Rightarrow> Some (Inl f)
                | Some (Inr (keys, runs)) \<Rightarrow>
                    Some (Inr \<lparr>pass_ts = ts, pass_runs = runs,
                       pass_tasks =
                         map (\<lambda>i. run_task (task_env w i) maxMutationsPerBatch outputBTFamily ts
                                     (runs ! i))
                           [0..<length runs]\<rparr>))))"

section \<open>The memory monitor\<close>

text \<open>
  The loop of \<^verbatim>\<open>monitor\<close> (lines 53 to 61). \<^verbatim>\<open>HeapAlloc k\<close> is what the
  \<open>k\<close>-th call of \<^verbatim>\<open>runtime.ReadMemStats\<close> reads, a \<^verbatim>\<open>uint64\<close>. The loop
  has no exit, so it is given by its state after \<open>k\<close> iterations: still running, or
  exited by \<^verbatim>\<open>log.Fatal\<close>, in both cases with what it logged and slept so far.
\<close>

datatype monitor_effect = Logged log_line | Slept nat

datatype monitor_state = Running "monitor_effect list" | Exited fault "monitor_effect list"

fun monitor :: "(nat \<Rightarrow> 64 word) \<Rightarrow> nat \<Rightarrow> monitor_state" where
  "monitor HeapAlloc 0 = Running []"
| "monitor HeapAlloc (Suc k) =
     (case monitor HeapAlloc k of
        Exited f trace \<Rightarrow> Exited f trace
      | Running trace \<Rightarrow>
          if HeapAlloc k > maxHeapAlloc then Exited (Fatal ''ERRO: Out of memory'') trace
          else Running (trace @ [Logged (Info_monitor_OK (HeapAlloc k)), Slept monitorSleep]))"

section \<open>Scheduling: the semaphore, the tasks and main\<close>

text \<open>
  The goroutines of \<^verbatim>\<open>main\<close> (lines 120 to 124 and 221 to 222) and how they may
  interleave. \<^verbatim>\<open>main\<close> spawns one goroutine for each run, without waiting, and then
  acquires the whole capacity of the semaphore. A task acquires one unit as its first
  statement, runs its body (lines 126 to 217) and releases the unit when it returns.

  The weighted semaphore of \<^verbatim>\<open>golang.org/x/sync/semaphore\<close> holds the number
  \<open>cur\<close> of units taken and a queue of waiters. \<^verbatim>\<open>Acquire(n)\<close> takes the units
  at once when they are free and nobody waits, and queues the caller otherwise (a
  request above the capacity blocks for ever); \<^verbatim>\<open>Release(n)\<close> gives the units back
  and wakes waiters from the front of the queue for as long as the front one fits.
\<close>

datatype thread = MainThread | TaskThread nat

datatype task_pc = T_acquire | T_blocked | T_body | T_returned

datatype main_pc = M_spawn nat | M_blocked | M_finished

record sched =
  s_main :: main_pc
  s_tasks :: "task_pc list"
  s_cur :: nat
  s_waiters :: "(thread \<times> nat) list"

fun proceed :: "thread \<Rightarrow> sched \<Rightarrow> sched" where
  "proceed MainThread s = s\<lparr>s_main := M_finished\<rparr>"
| "proceed (TaskThread i) s = s\<lparr>s_tasks := (s_tasks s)[i := T_body]\<rparr>"

fun block :: "thread \<Rightarrow> sched \<Rightarrow> sched" where
  "block MainThread s = s\<lparr>s_main := M_blocked\<rparr>"
| "block (TaskThread i) s = s\<lparr>s_tasks := (s_tasks s)[i := T_blocked]\<rparr>"

fun notifyWaiters :: "nat \<Rightarrow> (thread \<times> nat) list \<Rightarrow> sched \<Rightarrow> sched" where
  "notifyWaiters cap [] s = s\<lparr>s_waiters := []\<rparr>"
| "notifyWaiters cap ((t, n) # ws) s =
     (if cap - s_cur s < n then s\<lparr>s_waiters := (t, n) # ws\<rparr>
      else notifyWaiters cap ws (proceed t (s\<lparr>s_cur := s_cur s + n\<rparr>)))"

definition Acquire :: "nat \<Rightarrow> thread \<Rightarrow> nat \<Rightarrow> sched \<Rightarrow> sched" where
  "Acquire cap t n s =
     (if cap - s_cur s \<ge> n \<and> s_waiters s = [] then proceed t (s\<lparr>s_cur := s_cur s + n\<rparr>)
      else if n > cap then block t s
      else block t (s\<lparr>s_waiters := s_waiters s @ [(t, n)]\<rparr>))"

definition Release :: "nat \<Rightarrow> nat \<Rightarrow> sched \<Rightarrow> sched" where
  "Release cap n s = notifyWaiters cap (s_waiters s) (s\<lparr>s_cur := s_cur s - n\<rparr>)"

text \<open>
  One step of a thread, \<^term>\<open>None\<close> when the thread cannot move. \<^term>\<open>M_spawn k\<close>:
  \<^verbatim>\<open>main\<close> is in its loop and has spawned the tasks of the first \<open>k\<close> runs; after
  the last run its step is \<^verbatim>\<open>sem.Acquire(ctx, numConcurrentRuns)\<close> of line 221.
  \<^term>\<open>M_finished\<close>: that call has returned, so \<^verbatim>\<open>main\<close> logs its last line and
  returns, which ends the process. A task is at its \<^verbatim>\<open>sem.Acquire(ctx, 1)\<close>
  (\<^term>\<open>T_acquire\<close>), queued in it, in its body with its unit, or back from its body
  with the unit released.
\<close>

fun step :: "nat \<Rightarrow> nat \<Rightarrow> thread \<Rightarrow> sched \<Rightarrow> sched option" where
  "step cap nruns MainThread s =
     (case s_main s of
        M_spawn k \<Rightarrow>
          if k < nruns then Some (s\<lparr>s_main := M_spawn (Suc k), s_tasks := s_tasks s @ [T_acquire]\<rparr>)
          else Some (Acquire cap MainThread cap s)
      | M_blocked \<Rightarrow> None
      | M_finished \<Rightarrow> None)"
| "step cap nruns (TaskThread i) s =
     (if i < length (s_tasks s) then
        (case s_tasks s ! i of
           T_acquire \<Rightarrow> Some (Acquire cap (TaskThread i) 1 s)
         | T_blocked \<Rightarrow> None
         | T_body \<Rightarrow> Some (Release cap 1 (s\<lparr>s_tasks := (s_tasks s)[i := T_returned]\<rparr>))
         | T_returned \<Rightarrow> None)
      else None)"

fun run_schedule :: "nat \<Rightarrow> nat \<Rightarrow> thread list \<Rightarrow> sched \<Rightarrow> sched option" where
  "run_schedule cap nruns [] s = Some s"
| "run_schedule cap nruns (t # ts) s =
     (case step cap nruns t s of None \<Rightarrow> None | Some s' \<Rightarrow> run_schedule cap nruns ts s')"

definition sched_init :: sched where
  "sched_init = \<lparr>s_main = M_spawn 0, s_tasks = [], s_cur = 0, s_waiters = []\<rparr>"

section \<open>Notions used in the statements\<close>

text \<open>A message counts as absent when the pointer is nil or the string is empty.\<close>

definition message_absent :: "string option \<Rightarrow> bool" where
  "message_absent m = (m = None \<or> m = Some [])"

text \<open>The calls of \<^verbatim>\<open>set\<close> for a sequence of results, in order.\<close>

definition report_cells :: "string \<Rightarrow> TestRun \<Rightarrow> timestamp \<Rightarrow> TestResults list \<Rightarrow> set_call list" where
  "report_cells outputBTFamily run ts results =
     concat (map (result_cells outputBTFamily run ts) results)"

text \<open>The state a task has reached when it returns or when the process ends.\<close>

definition task_final :: "task_result \<Rightarrow> task_state" where
  "task_final t = (case t of Inl (f, st) \<Rightarrow> st | Inr st \<Rightarrow> st)"

text \<open>The contents of the mutation that \<^verbatim>\<open>set\<close> builds for one call.\<close>

definition mutation_of :: "set_call \<Rightarrow> mutation" where
  "mutation_of c = [SetCell (c_family c) (c_column c) (c_ts c) (c_value c)]"

text \<open>The batch made of a sequence of calls: their row keys and their mutations.\<close>

definition batch_of :: "set_call list \<Rightarrow> string list \<times> mutation list" where
  "batch_of cs = (map c_row cs, map mutation_of cs)"

text \<open>The mutations the pending pointers point to.\<close>

definition deref :: "task_state \<Rightarrow> mutation list" where
  "deref st = map (\<lambda>m. heap st ! m) (muts st)"

text \<open>The pending batch of a state is the batch of the calls \<open>p\<close>.\<close>

definition pending :: "task_state \<Rightarrow> set_call list \<Rightarrow> bool" where
  "pending st p \<longleftrightarrow>
     rows st = map c_row p \<and> deref st = map mutation_of p \<and>
     (\<forall>m \<in> set (muts st). m < length (heap st))"

text \<open>
  A list cut into consecutive pieces of \<open>n\<close> elements, the last piece holding what is
  left (between 1 and \<open>n\<close> elements).
\<close>

fun chunks :: "nat \<Rightarrow> 'a list \<Rightarrow> 'a list list" where
  "chunks n xs = (if n = 0 \<or> xs = [] then [] else take n xs # chunks n (drop n xs))"

declare chunks.simps [simp del]

definition last_chunk :: "nat \<Rightarrow> 'a list \<Rightarrow> 'a list" where
  "last_chunk n xs = (if xs = [] then [] else last (chunks n xs))"

definition no_warnings :: "log_line list \<Rightarrow> bool" where
  "no_warnings ls = (\<forall>l \<in> set ls. \<not> is_warning l)"

fun op_ts :: "set_op \<Rightarrow> timestamp" where
  "op_ts (SetCell family column ts v) = ts"

fun is_Entity :: "next_result \<Rightarrow> bool" where
  "is_Entity (Entity _ _) = True"
| "is_Entity _ = False"

text \<open>The iterator yields the entities \<open>es\<close>, in this order, on its first calls.\<close>

definition yields :: "iterator \<Rightarrow> (ds_key \<times> TestRun) list \<Rightarrow> bool" where
  "yields it es = (\<forall>i < length es. it i = Entity (fst (es ! i)) (snd (es ! i)))"

text \<open>What the monitor logs and sleeps over its first \<open>k\<close> samples.\<close>

definition samples_trace :: "(nat \<Rightarrow> 64 word) \<Rightarrow> nat \<Rightarrow> monitor_effect list" where
  "samples_trace HeapAlloc k =
     concat (map (\<lambda>i. [Logged (Info_monitor_OK (HeapAlloc i)), Slept monitorSleep]) [0..<k])"

section \<open>The calendar and decimal numerals\<close>

text \<open>
  The proleptic Gregorian calendar, stated without reference to the formatter: a year
  is a leap year when it is divisible by 4, and a year divisible by 100 only when it is
  divisible by 400; February has 29 days in a leap year.
\<close>

definition leap_year :: "int \<Rightarrow> bool" where
  "leap_year y = (4 dvd y \<and> (100 dvd y \<longrightarrow> 400 dvd y))"

definition year_length :: "int \<Rightarrow> int" where
  "year_length y = (if leap_year y then 366 else 365)"

definition month_lengths :: "int \<Rightarrow> int list" where
  "month_lengths y = [31, if leap_year y then 29 else 28, 31, 30, 31, 30, 31, 31, 30, 31, 30, 31]"

definition common_lengths :: "int list" where
  "common_lengths = [31, 28, 31, 30, 31, 30, 31, 31, 30, 31, 30, 31]"

definition valid_date :: "int \<Rightarrow> int \<Rightarrow> int \<Rightarrow> bool" where
  "valid_date y m d = (1 \<le> m \<and> m \<le> 12 \<and> 1 \<le> d \<and> d \<le> month_lengths y ! nat (m - 1))"

text \<open>
  The days from 1 January of year 1 to 1 January of year \<open>y\<close>: 365 for every year and
  one more for every leap year before \<open>y\<close>. The day number of a date counts the days
  from 1970-01-01: the whole years, the whole months of the year, the days of the month.
\<close>

definition days_before_year :: "int \<Rightarrow> int" where
  "days_before_year y = 365 * (y - 1) + (y - 1) div 4 - (y - 1) div 100 + (y - 1) div 400"

definition day_number :: "int \<Rightarrow> int \<Rightarrow> int \<Rightarrow> int" where
  "day_number y m d =
     days_before_year y - days_before_year 1970 +
     sum_list (take (nat (m - 1)) (month_lengths y)) + (d - 1)"

text \<open>
  The instant, in seconds since 1970-01-01T00:00:00Z, of a civil date and time of UTC
  (no leap seconds, as in Unix time).
\<close>

definition instant_of :: "int \<Rightarrow> int \<Rightarrow> int \<Rightarrow> int \<Rightarrow> int \<Rightarrow> int \<Rightarrow> int" where
  "instant_of y mo d h mi s = 86400 * day_number y mo d + 3600 * h + 60 * mi + s"

text \<open>
  Reading a decimal numeral: the value of a digit is its character code minus the code
  of \<open>0\<close>, and a string is read from the left. A field of width \<open>w\<close> holding \<open>v\<close> is
  a string of exactly \<open>w\<close> digits that reads as \<open>v\<close>; a longer numeral has no leading
  zero. The year of RFC 3339 has four digits; the formatter writes a year beyond 9999
  with all its digits and a year before 0 with a minus sign and the same for its
  absolute value.
\<close>

definition is_digit :: "char \<Rightarrow> bool" where
  "is_digit c = (c \<in> set ''0123456789'')"

definition digit_value :: "char \<Rightarrow> nat" where
  "digit_value c = of_char c - 48"

definition read_decimal :: "string \<Rightarrow> nat" where
  "read_decimal s = foldl (\<lambda>a c. 10 * a + digit_value c) 0 s"

definition decimal :: "nat \<Rightarrow> string \<Rightarrow> int \<Rightarrow> bool" where
  "decimal w s v = (length s = w \<and> list_all is_digit s \<and> int (read_decimal s) = v)"

definition long_decimal :: "nat \<Rightarrow> string \<Rightarrow> int \<Rightarrow> bool" where
  "long_decimal w s v =
     (w < length s \<and> hd s \<noteq> CHR ''0'' \<and> list_all is_digit s \<and> int (read_decimal s) = v)"

definition year_field :: "string \<Rightarrow> int \<Rightarrow> bool" where
  "year_field s y =
     (if 0 \<le> y then decimal 4 s y \<or> long_decimal 4 s y
      else s \<noteq> [] \<and> hd s = CHR ''-'' \<and>
           (decimal 4 (tl s) (- y) \<or> long_decimal 4 (tl s) (- y)))"

section \<open>Example inputs\<close>

definition example_run :: TestRun where
  "example_run = \<lparr>BrowserName = ''firefox'', BrowserVersion = ''70'', OSName = ''linux'',
     OSVersion = ''5.0'', FullRevisionHash = ''abc123'', CreatedAt = 1577836800,
     RawResultsURL = ''https://example.test/good.json''\<rparr>"

definition example_run_404 :: TestRun where
  "example_run_404 = example_run\<lparr>RawResultsURL := ''https://example.test/missing.json''\<rparr>"

definition example_result :: TestResults where
  "example_result = \<lparr>Test = ''/dom/a.html'', Status = ''OK'', Message = Some [],
     Subtests = [\<lparr>sub_Name = ''first'', sub_Status = ''PASS'', sub_Message = None\<rparr>,
                 \<lparr>sub_Name = ''second'', sub_Status = ''FAIL'', sub_Message = Some ''boom''\<rparr>]\<rparr>"

definition example_result2 :: TestResults where
  "example_result2 = \<lparr>Test = ''/dom/b.html'', Status = ''ERROR'', Message = Some ''late'',
     Subtests = []\<rparr>"

definition example_report :: TestResultsReport where
  "example_report = \<lparr>Results = [Some example_result, Some example_result2]\<rparr>"

definition example_env :: env where
  "example_env = \<lparr>
     http_Get = (\<lambda>url. if url = ''https://example.test/good.json'' then Response 200 (Data ''{}'')
                        else Response 404 (Data [])),
     json_Unmarshal = (\<lambda>data. if data = ''{}'' then Some example_report else None),
     ApplyBulk = (\<lambda>k rs ms. BulkResult [] None)\<rparr>"

definition example_cells :: "set_call list" where
  "example_cells =
     [\<lparr>c_row = ''r1'', c_family = ''runs'', c_column = ''col'', c_ts = 7, c_value = ''PASS''\<rparr>,
      \<lparr>c_row = ''r2'', c_family = ''runs'', c_column = ''col'', c_ts = 7, c_value = ''FAIL''\<rparr>,
      \<lparr>c_row = ''r3'', c_family = ''runs'', c_column = ''col'', c_ts = 7, c_value = ''OK''\<rparr>]"

definition example_iterator :: iterator where
  "example_iterator n =
     (if n = 0 then Entity 11 example_run else if n = 1 then Entity 12 example_run_404 else Done)"

definition failing_iterator :: iterator where
  "failing_iterator n = (if n = 0 then Entity 11 example_run else Failed ''deadline exceeded'')"

definition example_world :: world where
  "example_world = \<lparr>
     datastore_NewClient = Inr (\<lambda>q. example_iterator),
     bigtable_NewClient = None,
     bigtable_Now = (\<lambda>k. 1000 + int k),
     task_env = (\<lambda>i. example_env)\<rparr>"

definition null_entry_env :: env where
  "null_entry_env = example_env\<lparr>json_Unmarshal :=
     (\<lambda>data. Some \<lparr>Results = [Some example_result, None, Some example_result2]\<rparr>)\<rparr>"

definition example_heap :: "nat \<Rightarrow> 64 word" where
  "example_heap k = (if k < 2 then 1000 else 46000000000)"

definition example_pass :: pass where
  "example_pass = \<lparr>pass_ts = 1000, pass_runs = [example_run, example_run_404],
     pass_tasks = [run_task example_env maxMutationsPerBatch ''runs'' 1000 example_run,
                   run_task example_env maxMutationsPerBatch ''runs'' 1000 example_run_404]\<rparr>"

section \<open>Column keys\<close>

lemma format_2020: "format_RFC3339_UTC 1577836800 = ''2020-01-01T00:00:00Z''"
  by code_simp

text \<open>
  The epoch, the second before it, the last second of a leap day in a year divisible by
  400, and the day after February in a year divisible by 100 only; then a time of day
  on a leap day, the first second of year 1, the second before year 0 and the first
  second of year 10000.
\<close>

lemma format_RFC3339_UTC_examples:
  "format_RFC3339_UTC 0 = ''1970-01-01T00:00:00Z''"
  "format_RFC3339_UTC (- 1) = ''1969-12-31T23:59:59Z''"
  "format_RFC3339_UTC 951868799 = ''2000-02-29T23:59:59Z''"
  "format_RFC3339_UTC 4107542400 = ''2100-03-01T00:00:00Z''"
  "format_RFC3339_UTC 1709210096 = ''2024-02-29T12:34:56Z''"
  "format_RFC3339_UTC (- 62135596800) = ''0001-01-01T00:00:00Z''"
  "format_RFC3339_UTC (- 62167219201) = ''-0001-12-31T23:59:59Z''"
  "format_RFC3339_UTC 253402300800 = ''10000-01-01T00:00:00Z''"
  by code_simp+

subsection \<open>The civil date of a day number\<close>

text \<open>
  The date that the formatter computes for a day number is a date of the calendar, and
  the day number of that date is the given one. The proof follows the cycles: quotients
  and remainders are fixed by their bounds, and \<open>days_before_year\<close> grows by the length
  of the year.
\<close>

lemma div_known:
  fixes x k a r :: int
  assumes "0 \<le> r" "r < k" "x = k * a + r"
  shows "x div k = a"
proof -
  from assms(1,2) have "r div k = 0" by (simp add: div_pos_pos_trivial)
  with assms show ?thesis by simp
qed

lemma mod_known:
  fixes x k a r :: int
  assumes "0 \<le> r" "r < k" "x = k * a + r"
  shows "x mod k = r"
  using assms by (simp add: mod_pos_pos_trivial)

lemma dvd_known:
  fixes x k a r :: int
  assumes "0 \<le> r" "r < k" "x = k * a + r"
  shows "(k dvd x) = (r = 0)"
  using mod_known [OF assms] by (simp add: dvd_eq_mod_eq_0)

lemma div_bounds:
  fixes x k :: int
  assumes "0 < k"
  shows "k * (x div k) \<le> x" "x < k * (x div k) + k"
proof -
  have "x = k * (x div k) + x mod k" by simp
  moreover have "0 \<le> x mod k" "x mod k < k" using assms by simp_all
  ultimately show "k * (x div k) \<le> x" "x < k * (x div k) + k" by linarith+
qed

lemma isLeap_leap_year: "isLeap y = leap_year y"
  unfolding isLeap_def leap_year_def by (auto simp: dvd_eq_mod_eq_0)

lemma days_before_year_1970: "days_before_year 1970 = 719162"
  by (simp add: days_before_year_def)

lemma div_step:
  fixes x k :: int
  assumes "0 < k"
  shows "(x + 1) div k = x div k + (if k dvd x + 1 then 1 else 0)"
proof -
  define q where "q = x div k"
  define r where "r = x mod k"
  have x: "x = k * q + r" and r: "0 \<le> r" "r < k" using assms by (simp_all add: q_def r_def)
  show ?thesis
  proof (cases "r = k - 1")
    case True
    with x have e: "x + 1 = k * (q + 1) + 0" by (simp add: algebra_simps)
    from assms have "(0::int) \<le> 0" "(0::int) < k" by simp_all
    from div_known [OF this e] dvd_known [OF this e] show ?thesis by (simp add: q_def)
  next
    case False
    with r have r': "0 \<le> r + 1" "r + 1 < k" by simp_all
    from x have e: "x + 1 = k * q + (r + 1)" by simp
    from div_known [OF r' e] dvd_known [OF r' e] r show ?thesis by (simp add: q_def)
  qed
qed

lemma days_before_year_Suc:
  "days_before_year (y + 1) = days_before_year y + year_length y"
proof -
  define a where "a = (y - 1) div 4"
  define b where "b = (y - 1) div 100"
  define c where "c = (y - 1) div 400"
  have a: "y div 4 = a + (if 4 dvd y then 1 else 0)"
    using div_step [of 4 "y - 1"] by (simp add: a_def)
  have b: "y div 100 = b + (if 100 dvd y then 1 else 0)"
    using div_step [of 100 "y - 1"] by (simp add: b_def)
  have c: "y div 400 = c + (if 400 dvd y then 1 else 0)"
    using div_step [of 400 "y - 1"] by (simp add: c_def)
  have l: "days_before_year y = 365 * (y - 1) + a - b + c"
    by (simp add: days_before_year_def a_def b_def c_def)
  have r: "days_before_year (y + 1) = 365 * y + y div 4 - y div 100 + y div 400"
    by (simp add: days_before_year_def)
  have "(100::int) dvd 400" "(4::int) dvd 100" by simp_all
  then have t: "400 dvd y \<Longrightarrow> 100 dvd y" "100 dvd y \<Longrightarrow> 4 dvd y"
    using dvd_trans by blast+
  consider (n4) "\<not> 4 dvd y" | (n100) "4 dvd y" "\<not> 100 dvd y"
    | (n400) "4 dvd y" "100 dvd y" "\<not> 400 dvd y" | (all) "400 dvd y"
    by blast
  then show ?thesis
  proof cases
    case n4
    with t have "\<not> 100 dvd y" "\<not> 400 dvd y" by blast+
    with n4 show ?thesis unfolding r l a b c by (simp add: year_length_def leap_year_def)
  next
    case n100
    with t have "\<not> 400 dvd y" by blast
    with n100 show ?thesis unfolding r l a b c by (simp add: year_length_def leap_year_def)
  next
    case n400
    then show ?thesis unfolding r l a b c by (simp add: year_length_def leap_year_def)
  next
    case all
    with t have "100 dvd y" "4 dvd y" by blast+
    with all show ?thesis unfolding r l a b c by (simp add: year_length_def leap_year_def)
  qed
qed

lemma sum_month_lengths: "sum_list (month_lengths y) = year_length y"
  by (simp add: month_lengths_def year_length_def)

lemma quarter_cut:
  fixes q :: int
  assumes "0 \<le> q" "q \<le> 4"
  shows "q - q div 4 = (if q = 4 then 3 else q)"
proof (cases "q = 4")
  case True
  then show ?thesis by simp
next
  case False
  with assms have "q < 4" by simp
  with assms(1) have "q div 4 = 0" by (simp add: div_pos_pos_trivial)
  with False show ?thesis by simp
qed

lemma year_and_yday_correct:
  assumes "year_and_yday z = (y, yd)"
  shows "0 \<le> yd \<and> yd < year_length y \<and> days_before_year y + yd = z + 719162"
proof -
  define d where "d = z + 719162"
  define n400 where "n400 = d div 146097"
  define d1 where "d1 = d mod 146097"
  define q100 where "q100 = d1 div 36524"
  define n100 where "n100 = q100 - q100 div 4"
  define d2 where "d2 = d1 - 36524 * n100"
  define n4 where "n4 = d2 div 1461"
  define d3 where "d3 = d2 mod 1461"
  define q1 where "q1 = d3 div 365"
  define n1 where "n1 = q1 - q1 div 4"
  have y: "y = 1 + 400 * n400 + 100 * n100 + 4 * n4 + n1" and yd: "yd = d3 - 365 * n1"
    using assms
    unfolding year_and_yday_def Let_def d_def n400_def d1_def q100_def n100_def d2_def n4_def
      d3_def q1_def n1_def
    by simp_all
  have d: "d = 146097 * n400 + d1" unfolding n400_def d1_def by simp
  have d1: "0 \<le> d1" "d1 < 146097" unfolding d1_def by simp_all
  have q100a: "36524 * q100 \<le> d1" "d1 < 36524 * q100 + 36524"
    unfolding q100_def by (rule div_bounds, simp)+
  have q100: "0 \<le> q100" "q100 \<le> 4" using q100a d1 by linarith+
  have n100: "n100 = (if q100 = 4 then 3 else q100)"
    unfolding n100_def using quarter_cut [OF q100(1,2)] .
  have n100b: "0 \<le> n100" "n100 \<le> 3" using n100 q100 by (auto split: if_splits)
  have d2: "0 \<le> d2" "d2 \<le> 36524" "n100 < 3 \<longrightarrow> d2 < 36524"
    using q100 q100a n100 d1 unfolding d2_def by (auto split: if_splits)
  have n4a: "1461 * n4 \<le> d2" "d2 < 1461 * n4 + 1461"
    unfolding n4_def by (rule div_bounds, simp)+
  have n4: "0 \<le> n4" "n4 \<le> 24" using n4a d2 by linarith+
  have n4e: "d2 = 1461 * n4 + d3" unfolding n4_def d3_def by simp
  have d3: "0 \<le> d3" "d3 < 1461" unfolding d3_def by simp_all
  have q1a: "365 * q1 \<le> d3" "d3 < 365 * q1 + 365"
    unfolding q1_def by (rule div_bounds, simp)+
  have q1: "0 \<le> q1" "q1 \<le> 4" using q1a d3 by linarith+
  have n1: "n1 = (if q1 = 4 then 3 else q1)"
    unfolding n1_def using quarter_cut [OF q1(1,2)] .
  have n1b: "0 \<le> n1" "n1 \<le> 3" using n1 q1 by (auto split: if_splits)
  have yd_range: "0 \<le> yd" "yd \<le> 365" "yd = 365 \<longrightarrow> n1 = 3 \<and> d3 = 1460"
    using q1 q1a n1 d3 unfolding yd by (auto split: if_splits)
  let ?Y = "400 * n400 + 100 * n100 + 4 * n4 + n1"
  have div4: "?Y div 4 = 100 * n400 + 25 * n100 + n4"
    by (rule div_known [of n1]) (use n1b in simp_all)
  have div100: "?Y div 100 = 4 * n400 + n100"
    by (rule div_known [of "4 * n4 + n1"]) (use n1b n4 in simp_all)
  have div400: "?Y div 400 = n400"
    by (rule div_known [of "100 * n100 + 4 * n4 + n1"]) (use n1b n4 n100b in simp_all)
  have ym: "y - 1 = ?Y" unfolding y by simp
  have dby: "days_before_year y = 146097 * n400 + 36524 * n100 + 1461 * n4 + 365 * n1"
    unfolding days_before_year_def ym div4 div100 div400 by simp
  have total: "days_before_year y + yd = z + 719162"
    using dby d n4e unfolding yd d2_def d_def by simp
  have leap: "leap_year y" if "n1 = 3" "n4 \<noteq> 24 \<or> n100 = 3"
  proof -
    have four: "4 dvd y"
      using dvd_known [of 0 4 y "100 * n400 + 25 * n100 + n4 + 1"] that(1) unfolding y by simp
    have "400 dvd y" if "100 dvd y"
    proof (cases "n4 = 24")
      case True
      with \<open>n4 \<noteq> 24 \<or> n100 = 3\<close> have "n100 = 3" by simp
      with True \<open>n1 = 3\<close> show ?thesis
        using dvd_known [of 0 400 y "n400 + 1"] unfolding y by simp
    next
      case False
      with n4 have "n4 < 24" by simp
      with n4 \<open>n1 = 3\<close> have "0 \<le> 4 * n4 + 4" "4 * n4 + 4 < 100" "4 * n4 + 4 \<noteq> 0" by simp_all
      with dvd_known [of "4 * n4 + 4" 100 y "4 * n400 + n100"] \<open>n1 = 3\<close> that
      show ?thesis unfolding y by simp
    qed
    with four show ?thesis by (simp add: leap_year_def)
  qed
  have "yd < year_length y"
  proof (cases "yd = 365")
    case True
    with yd_range have a: "n1 = 3" "d3 = 1460" by simp_all
    have "n4 \<noteq> 24 \<or> n100 = 3" using a(2) n4e d2(3) n100b by auto
    with a leap have "leap_year y" by simp
    with True show ?thesis by (simp add: year_length_def)
  next
    case False
    with yd_range show ?thesis by (simp add: year_length_def)
  qed
  with yd_range(1) total show ?thesis by simp
qed


lemma small_cases:
  fixes k :: int
  assumes "0 \<le> k" "k \<le> 11"
  shows "k = 0 \<or> k = 1 \<or> k = 2 \<or> k = 3 \<or> k = 4 \<or> k = 5 \<or> k = 6 \<or> k = 7 \<or> k = 8 \<or>
         k = 9 \<or> k = 10 \<or> k = 11"
  using assms by presburger

lemma month_split:
  fixes day :: int
  assumes "0 \<le> day" "day \<le> 364"
  shows "\<exists>m dd.
     (let month = day div 31; e = daysBefore ! nat (month + 1)
      in if day \<ge> e then (month + 2, day - e + 1)
         else (month + 1, day - daysBefore ! nat month + 1)) = (m, dd) \<and>
     1 \<le> m \<and> m \<le> 12 \<and> 1 \<le> dd \<and> dd \<le> common_lengths ! nat (m - 1) \<and>
     daysBefore ! nat (m - 1) + dd - 1 = day \<and> (m \<le> 2 \<longleftrightarrow> day < 59)"
proof -
  define k where "k = day div 31"
  have kb: "31 * k \<le> day" "day < 31 * k + 31" unfolding k_def by (rule div_bounds, simp)+
  with assms have "0 \<le> k" "k \<le> 11" by linarith+
  from small_cases [OF this] show ?thesis
  proof (elim disjE)
    assume "k = 0" with kb show ?thesis unfolding k_def [symmetric] Let_def
      by (simp add: daysBefore_def common_lengths_def)
  next
    assume "k = 1" with kb show ?thesis unfolding k_def [symmetric] Let_def
      by (simp add: daysBefore_def common_lengths_def)
  next
    assume "k = 2" with kb show ?thesis unfolding k_def [symmetric] Let_def
      by (simp add: daysBefore_def common_lengths_def)
  next
    assume "k = 3" with kb show ?thesis unfolding k_def [symmetric] Let_def
      by (simp add: daysBefore_def common_lengths_def)
  next
    assume "k = 4" with kb show ?thesis unfolding k_def [symmetric] Let_def
      by (simp add: daysBefore_def common_lengths_def)
  next
    assume "k = 5" with kb show ?thesis unfolding k_def [symmetric] Let_def
      by (simp add: daysBefore_def common_lengths_def)
  next
    assume "k = 6" with kb show ?thesis unfolding k_def [symmetric] Let_def
      by (simp add: daysBefore_def common_lengths_def)
  next
    assume "k = 7" with kb show ?thesis unfolding k_def [symmetric] Let_def
      by (simp add: daysBefore_def common_lengths_def)
  next
    assume "k = 8" with kb show ?thesis unfolding k_def [symmetric] Let_def
      by (simp add: daysBefore_def common_lengths_def)
  next
    assume "k = 9" with kb show ?thesis unfolding k_def [symmetric] Let_def
      by (simp add: daysBefore_def common_lengths_def)
  next
    assume "k = 10" with kb show ?thesis unfolding k_def [symmetric] Let_def
      by (simp add: daysBefore_def common_lengths_def)
  next
    assume "k = 11" with kb assms show ?thesis unfolding k_def [symmetric] Let_def
      by (simp add: daysBefore_def common_lengths_def)
  qed
qed


lemma month_lengths_prefix:
  assumes "1 \<le> m" "m \<le> 12"
  shows "sum_list (take (nat (m - 1)) (month_lengths y)) =
           daysBefore ! nat (m - 1) + (if leap_year y \<and> 2 < m then 1 else 0)"
proof -
  from assms have "0 \<le> m - 1" "m - 1 \<le> 11" by simp_all
  from small_cases [OF this] show ?thesis
    by (elim disjE) (simp_all add: month_lengths_def daysBefore_def)
qed

lemma month_lengths_nth:
  assumes "1 \<le> m" "m \<le> 12"
  shows "month_lengths y ! nat (m - 1) =
           common_lengths ! nat (m - 1) + (if leap_year y \<and> m = 2 then 1 else 0)"
proof -
  from assms have "0 \<le> m - 1" "m - 1 \<le> 11" by simp_all
  from small_cases [OF this] show ?thesis
    by (elim disjE) (simp_all add: month_lengths_def common_lengths_def)
qed

lemma month_and_day_correct:
  assumes "0 \<le> yd" "yd < year_length y" "month_and_day y yd = (m, d)"
  shows "valid_date y m d \<and> sum_list (take (nat (m - 1)) (month_lengths y)) + (d - 1) = yd"
proof (cases "leap_year y \<and> yd = 59")
  case True
  with assms(3) have "m = 2" "d = 29" by (simp_all add: month_and_day_def isLeap_leap_year)
  with True show ?thesis by (simp add: valid_date_def month_lengths_def)
next
  case False
  define day where "day = (if leap_year y \<and> yd > 59 then yd - 1 else yd)"
  have day: "0 \<le> day" "day \<le> 364"
    using assms(1,2) False by (auto simp: day_def year_length_def split: if_splits)
  from month_split [OF day] obtain m' dd where md:
    "(let month = day div 31; e = daysBefore ! nat (month + 1)
      in if day \<ge> e then (month + 2, day - e + 1)
         else (month + 1, day - daysBefore ! nat month + 1)) = (m', dd)"
    "1 \<le> m'" "m' \<le> 12" "1 \<le> dd" "dd \<le> common_lengths ! nat (m' - 1)"
    "daysBefore ! nat (m' - 1) + dd - 1 = day" "m' \<le> 2 \<longleftrightarrow> day < 59"
    by blast
  have "month_and_day y yd = (m', dd)"
    using False md(1) unfolding month_and_day_def isLeap_leap_year day_def Let_def
    by (cases "leap_year y") simp_all
  with assms(3) have eq: "m = m'" "d = dd" by simp_all
  have "common_lengths ! nat (m' - 1) \<le> month_lengths y ! nat (m' - 1)"
    unfolding month_lengths_nth [OF md(2,3), of y] by simp
  with md(5) have "dd \<le> month_lengths y ! nat (m' - 1)" by (rule order_trans)
  with md(2-4) have valid: "valid_date y m d"
    unfolding valid_date_def eq by simp
  have shift: "(if leap_year y \<and> 2 < m' then 1 else 0) = yd - day"
    using md(7) False unfolding day_def by (auto split: if_splits)
  have "sum_list (take (nat (m - 1)) (month_lengths y)) + (d - 1) = yd"
    using month_lengths_prefix [OF md(2,3), of y] md(6) shift unfolding eq by simp
  with valid show ?thesis by simp
qed

theorem civil_from_days_correct:
  assumes "civil_from_days z = (y, m, d)"
  shows "valid_date y m d \<and> day_number y m d = z"
proof -
  obtain y' yd where yy: "year_and_yday z = (y', yd)" by (cases "year_and_yday z")
  obtain m' d' where md: "month_and_day y' yd = (m', d')" by (cases "month_and_day y' yd")
  from assms yy md have eq: "y = y'" "m = m'" "d = d'" by (simp_all add: civil_from_days_def)
  from year_and_yday_correct [OF yy]
  have yd: "0 \<le> yd" "yd < year_length y'" "days_before_year y' + yd = z + 719162" by simp_all
  from month_and_day_correct [OF yd(1,2) md]
  have "valid_date y' m' d'" "sum_list (take (nat (m' - 1)) (month_lengths y')) + (d' - 1) = yd"
    by simp_all
  with yd(3) show ?thesis unfolding eq day_number_def days_before_year_1970 by simp
qed

subsection \<open>Decimal fields and the time of day\<close>

text \<open>
  The digits that \<^verbatim>\<open>appendInt\<close> writes read back as the number, and the padding
  gives the field its width.
\<close>

lemma nat_small_cases:
  fixes k :: nat
  assumes "k < 10"
  shows "k = 0 \<or> k = 1 \<or> k = 2 \<or> k = 3 \<or> k = 4 \<or> k = 5 \<or> k = 6 \<or> k = 7 \<or> k = 8 \<or> k = 9"
  using assms by presburger

lemma digit_char_digit: "is_digit (digit_char d)"
proof -
  have "d mod 10 < 10" by simp
  from nat_small_cases [OF this] show ?thesis
    by (elim disjE) (simp_all add: digit_char_def is_digit_def)
qed

lemma digit_char_value: "digit_value (digit_char d) = d mod 10"
proof -
  have "d mod 10 < 10" by simp
  from nat_small_cases [OF this] show ?thesis
    by (elim disjE) (simp_all add: digit_char_def digit_value_def)
qed

lemma digit_char_nonzero: "d mod 10 \<noteq> 0 \<Longrightarrow> digit_char d \<noteq> CHR ''0''"
proof -
  assume nz: "d mod 10 \<noteq> 0"
  have "d mod 10 < 10" by simp
  from nat_small_cases [OF this] nz show ?thesis
    by (elim disjE) (simp_all add: digit_char_def)
qed

lemma read_decimal_snoc: "read_decimal (s @ [c]) = 10 * read_decimal s + digit_value c"
  by (simp add: read_decimal_def)

lemma read_decimal_single: "read_decimal [c] = digit_value c"
  by (simp add: read_decimal_def)

lemma read_decimal_zeros: "read_decimal (replicate k CHR ''0'' @ s) = read_decimal s"
proof (induction k)
  case 0
  show ?case by simp
next
  case (Suc k)
  have "read_decimal (CHR ''0'' # t) = read_decimal t" for t
    by (simp add: read_decimal_def digit_value_def)
  with Suc show ?case by simp
qed

lemma dec_digits_digits: "list_all is_digit (dec_digits n)"
proof (induction n rule: dec_digits.induct)
  case (1 n)
  show ?case
  proof (cases "n < 10")
    case True
    then show ?thesis by (simp add: dec_digits.simps [of n] digit_char_digit)
  next
    case False
    with 1 show ?thesis by (simp add: dec_digits.simps [of n] digit_char_digit)
  qed
qed

lemma dec_digits_read: "read_decimal (dec_digits n) = n"
proof (induction n rule: dec_digits.induct)
  case (1 n)
  show ?case
  proof (cases "n < 10")
    case True
    then show ?thesis
      by (simp add: dec_digits.simps [of n] read_decimal_single digit_char_value)
  next
    case False
    with 1 show ?thesis
      by (simp add: dec_digits.simps [of n] read_decimal_snoc digit_char_value)
  qed
qed

lemma dec_digits_nonempty: "dec_digits n \<noteq> []"
  by (simp add: dec_digits.simps [of n])

lemma dec_digits_length: "n < 10 ^ k \<Longrightarrow> 0 < k \<Longrightarrow> length (dec_digits n) \<le> k"
proof (induction k arbitrary: n)
  case 0
  then show ?case by simp
next
  case (Suc k)
  show ?case
  proof (cases "n < 10")
    case True
    then show ?thesis by (simp add: dec_digits.simps [of n])
  next
    case False
    with Suc.prems have k: "0 < k" by (cases k) simp_all
    from Suc.prems have "n < 10 * 10 ^ k" by simp
    then have "n div 10 < 10 ^ k" by (simp add: less_mult_imp_div_less mult.commute)
    from Suc.IH [OF this k] False show ?thesis by (simp add: dec_digits.simps [of n])
  qed
qed

lemma dec_digits_long: "10 ^ k \<le> n \<Longrightarrow> k < length (dec_digits n)"
proof (induction k arbitrary: n)
  case 0
  then show ?case using dec_digits_nonempty [of n] by (cases "dec_digits n") simp_all
next
  case (Suc k)
  from Suc.prems have p: "10 * 10 ^ k \<le> n" by simp
  have q: "(10::nat) \<le> 10 * 10 ^ k" by simp
  from q p have ge: "10 \<le> n" by (rule le_trans)
  from p have "10 ^ k \<le> n div 10" by (simp add: less_eq_div_iff_mult_less_eq mult.commute)
  from Suc.IH [OF this] ge show ?case by (simp add: dec_digits.simps [of n])
qed

lemma dec_digits_hd: "0 < n \<Longrightarrow> hd (dec_digits n) \<noteq> CHR ''0''"
proof (induction n rule: dec_digits.induct)
  case (1 n)
  show ?case
  proof (cases "n < 10")
    case True
    with 1(2) have "n mod 10 \<noteq> 0" by simp
    with True show ?thesis by (simp add: dec_digits.simps [of n] digit_char_nonzero)
  next
    case False
    then have "0 < n div 10" by simp
    with 1(1) False have "hd (dec_digits (n div 10)) \<noteq> CHR ''0''" by simp
    with False show ?thesis by (simp add: dec_digits.simps [of n] dec_digits_nonempty)
  qed
qed

lemma decimal_appendInt:
  assumes "0 \<le> x" "x < 10 ^ w" "0 < w"
  shows "decimal w (appendInt x w) x"
proof -
  define ds where "ds = dec_digits (nat x)"
  from assms have "nat x < 10 ^ w" by (simp add: nat_less_iff)
  from dec_digits_length [OF this assms(3)] have len: "length ds \<le> w" unfolding ds_def .
  from assms(1) have a: "appendInt x w = replicate (w - length ds) CHR ''0'' @ ds"
    by (simp add: appendInt_def ds_def Let_def)
  have z: "is_digit CHR ''0''" by (simp add: is_digit_def)
  have "length (appendInt x w) = w" using len unfolding a by simp
  moreover have "list_all is_digit (appendInt x w)"
    unfolding a using dec_digits_digits [of "nat x"] z by (auto simp: ds_def list_all_iff)
  moreover have "int (read_decimal (appendInt x w)) = x"
    unfolding a read_decimal_zeros ds_def dec_digits_read using assms(1) by simp
  ultimately show ?thesis by (simp add: decimal_def)
qed

lemma long_decimal_appendInt:
  assumes "10 ^ w \<le> x"
  shows "long_decimal w (appendInt x w) x"
proof -
  define ds where "ds = dec_digits (nat x)"
  have "(0::int) < 10 ^ w" by simp
  with assms have pos: "0 < x" by linarith
  from assms have "10 ^ w \<le> nat x" by (simp add: le_nat_iff)
  from dec_digits_long [OF this] have len: "w < length ds" unfolding ds_def .
  from pos len have a: "appendInt x w = ds" by (simp add: appendInt_def ds_def Let_def)
  have "hd ds \<noteq> CHR ''0''" unfolding ds_def using pos by (intro dec_digits_hd) simp
  moreover have "list_all is_digit ds" unfolding ds_def by (rule dec_digits_digits)
  moreover have "int (read_decimal ds) = x" unfolding ds_def dec_digits_read using pos by simp
  ultimately show ?thesis unfolding a using len by (simp add: long_decimal_def)
qed

lemma year_field_appendInt: "year_field (appendInt y 4) y"
proof (cases "0 \<le> y")
  case True
  show ?thesis
  proof (cases "y < 10 ^ 4")
    case lt: True
    from decimal_appendInt [OF True lt] True show ?thesis by (simp add: year_field_def)
  next
    case False
    then have "10 ^ 4 \<le> y" by simp
    from long_decimal_appendInt [OF this] True show ?thesis by (simp add: year_field_def)
  qed
next
  case False
  then have neg: "y < 0" "0 \<le> - y" by simp_all
  have a: "appendInt y 4 = CHR ''-'' # appendInt (- y) 4"
    using neg by (simp add: appendInt_def Let_def)
  show ?thesis
  proof (cases "- y < 10 ^ 4")
    case True
    from decimal_appendInt [OF neg(2) True] neg show ?thesis
      unfolding a by (simp add: year_field_def)
  next
    case False
    then have "10 ^ 4 \<le> - y" by simp
    from long_decimal_appendInt [OF this] neg show ?thesis
      unfolding a by (simp add: year_field_def)
  qed
qed

lemma time_of_day:
  fixes t :: int
  defines "s \<equiv> t mod 86400"
  shows "0 \<le> s div 3600" "s div 3600 < 24" "0 \<le> s mod 3600 div 60" "s mod 3600 div 60 < 60"
    "0 \<le> s mod 60" "s mod 60 < 60"
    "t = 86400 * (t div 86400) + 3600 * (s div 3600) + 60 * (s mod 3600 div 60) + s mod 60"
proof -
  define h where "h = s div 3600"
  define r where "r = s mod 3600"
  define mi where "mi = r div 60"
  define e where "e = s mod 60"
  have s: "0 \<le> s" "s < 86400" unfolding s_def by simp_all
  have hb: "3600 * h \<le> s" "s < 3600 * h + 3600" unfolding h_def by (rule div_bounds, simp)+
  have r: "0 \<le> r" "r < 3600" "s = 3600 * h + r" unfolding r_def h_def by simp_all
  have mb: "60 * mi \<le> r" "r < 60 * mi + 60" unfolding mi_def by (rule div_bounds, simp)+
  have "r mod 60 = e" unfolding r_def e_def by (simp add: mod_mod_cancel)
  moreover have "r = 60 * mi + r mod 60" unfolding mi_def by simp
  ultimately have r2: "r = 60 * mi + e" by simp
  have t: "t = 86400 * (t div 86400) + s" unfolding s_def by simp
  show "0 \<le> s div 3600" "s div 3600 < 24" using hb s unfolding h_def [symmetric] by linarith+
  show "0 \<le> s mod 3600 div 60" "s mod 3600 div 60 < 60"
    using mb r unfolding mi_def [symmetric] r_def [symmetric] by linarith+
  show "0 \<le> s mod 60" "s mod 60 < 60" by simp_all
  show "t = 86400 * (t div 86400) + 3600 * (s div 3600) + 60 * (s mod 3600 div 60) + s mod 60"
    using t r(3) r2
    unfolding h_def [symmetric] r_def [symmetric] mi_def [symmetric] e_def [symmetric]
    by linarith
qed

subsection \<open>An instant has one civil date and time\<close>

text \<open>
  The day number grows with the date, so a day number is the day number of one date
  only, and an instant is the instant of one civil date and time only.
\<close>

lemma day_number_epoch: "day_number 1970 1 1 = 0"
  by (simp add: day_number_def)

lemma year_length_pos: "365 \<le> year_length y"
  by (simp add: year_length_def)

lemma days_before_year_mono:
  assumes "y < y'"
  shows "days_before_year y + year_length y \<le> days_before_year y'"
  using assms
proof (induction y' rule: int_gr_induct)
  case base
  show ?case by (simp add: days_before_year_Suc)
next
  case (step i)
  have "days_before_year (i + 1) = days_before_year i + year_length i"
    by (rule days_before_year_Suc)
  with step.IH year_length_pos [of i] show ?case by linarith
qed

lemma month_start_cases:
  assumes "1 \<le> m" "m \<le> 12"
  shows "m = 1 \<or> m = 2 \<or> m = 3 \<or> m = 4 \<or> m = 5 \<or> m = 6 \<or> m = 7 \<or> m = 8 \<or> m = 9 \<or>
         m = 10 \<or> m = 11 \<or> m = (12::int)"
  using assms by presburger

lemma year_offset_range:
  assumes "valid_date y m d"
  shows "0 \<le> sum_list (take (nat (m - 1)) (month_lengths y)) + (d - 1)"
    "sum_list (take (nat (m - 1)) (month_lengths y)) + (d - 1) < year_length y"
proof -
  from assms have m: "1 \<le> m" "m \<le> 12" and d: "1 \<le> d" "d \<le> month_lengths y ! nat (m - 1)"
    by (simp_all add: valid_date_def)
  from month_lengths_prefix [OF m, of y] d(1)
  show "0 \<le> sum_list (take (nat (m - 1)) (month_lengths y)) + (d - 1)"
    using month_start_cases [OF m] by (elim disjE) (simp_all add: daysBefore_def)
  show "sum_list (take (nat (m - 1)) (month_lengths y)) + (d - 1) < year_length y"
  proof (cases "leap_year y")
    case True
    from month_start_cases [OF m] d(2) show ?thesis
      unfolding month_lengths_prefix [OF m] month_lengths_nth [OF m]
      by (elim disjE) (simp_all add: True daysBefore_def common_lengths_def year_length_def)
  next
    case False
    from month_start_cases [OF m] d(2) show ?thesis
      unfolding month_lengths_prefix [OF m] month_lengths_nth [OF m]
      by (elim disjE) (simp_all add: False daysBefore_def common_lengths_def year_length_def)
  qed
qed

lemma month_day_unique:
  assumes "valid_date y m d" "valid_date y m' d'"
    and "sum_list (take (nat (m - 1)) (month_lengths y)) + (d - 1) =
         sum_list (take (nat (m' - 1)) (month_lengths y)) + (d' - 1)"
  shows "m = m' \<and> d = d'"
proof -
  from assms(1) have m: "1 \<le> m" "m \<le> 12" and d: "1 \<le> d" "d \<le> month_lengths y ! nat (m - 1)"
    by (simp_all add: valid_date_def)
  from assms(2) have m': "1 \<le> m'" "m' \<le> 12"
    and d': "1 \<le> d'" "d' \<le> month_lengths y ! nat (m' - 1)"
    by (simp_all add: valid_date_def)
  note facts = d d' assms(3) [unfolded month_lengths_prefix [OF m] month_lengths_prefix [OF m']]
  have "m = m'"
  proof (cases "leap_year y")
    case True
    from month_start_cases [OF m] month_start_cases [OF m'] facts show ?thesis
      unfolding month_lengths_nth [OF m] month_lengths_nth [OF m']
      by (elim disjE) (simp_all add: True daysBefore_def common_lengths_def)
  next
    case False
    from month_start_cases [OF m] month_start_cases [OF m'] facts show ?thesis
      unfolding month_lengths_nth [OF m] month_lengths_nth [OF m']
      by (elim disjE) (simp_all add: False daysBefore_def common_lengths_def)
  qed
  with assms(3) show ?thesis by simp
qed

lemma day_number_unique:
  assumes "valid_date y m d" "valid_date y' m' d'" "day_number y m d = day_number y' m' d'"
  shows "y = y' \<and> m = m' \<and> d = d'"
proof -
  define off where "off = sum_list (take (nat (m - 1)) (month_lengths y)) + (d - 1)"
  define off' where "off' = sum_list (take (nat (m' - 1)) (month_lengths y')) + (d' - 1)"
  have r: "0 \<le> off" "off < year_length y"
    unfolding off_def by (rule year_offset_range [OF assms(1)])+
  have r': "0 \<le> off'" "off' < year_length y'"
    unfolding off'_def by (rule year_offset_range [OF assms(2)])+
  from assms(3) have eq: "days_before_year y + off = days_before_year y' + off'"
    unfolding day_number_def off_def off'_def by simp
  have "\<not> y < y'"
  proof
    assume "y < y'"
    from days_before_year_mono [OF this] r r' eq show False by linarith
  qed
  moreover have "\<not> y' < y"
  proof
    assume "y' < y"
    from days_before_year_mono [OF this] r r' eq show False by linarith
  qed
  ultimately have y: "y = y'" by simp
  with eq have "off = off'" by simp
  with month_day_unique [OF assms(1) assms(2) [folded y]] show ?thesis
    unfolding off_def off'_def y by simp
qed

lemma civil_time_unique:
  assumes "valid_date y mo d" "0 \<le> h" "h < 24" "0 \<le> mi" "mi < 60" "0 \<le> s" "s < 60"
    and "valid_date y' mo' d'" "0 \<le> h'" "h' < 24" "0 \<le> mi'" "mi' < 60" "0 \<le> s'" "s' < 60"
    and "instant_of y mo d h mi s = instant_of y' mo' d' h' mi' s'"
  shows "y = y' \<and> mo = mo' \<and> d = d' \<and> h = h' \<and> mi = mi' \<and> s = s'"
proof -
  define n where "n = day_number y mo d"
  define n' where "n' = day_number y' mo' d'"
  from assms(15) have eq: "86400 * n + 3600 * h + 60 * mi + s = 86400 * n' + 3600 * h' + 60 * mi' + s'"
    unfolding instant_of_def n_def n'_def .
  have n: "n = n'" using eq assms(2-7,9-14) by linarith
  have h: "h = h'" using eq n assms(4-7,11-14) by linarith
  have mi: "mi = mi'" using eq n h assms(6,7,13,14) by linarith
  have s: "s = s'" using eq n h mi by linarith
  from day_number_unique [OF assms(1,8)] n have "y = y' \<and> mo = mo' \<and> d = d'"
    unfolding n_def n'_def by simp
  with h mi s show ?thesis by simp
qed

subsection \<open>A number has one numeral\<close>

text \<open>
  Two strings of digits of the same length that read as the same number are the same
  string, and a string of digits without a leading zero has the length of its number.
  So a field of a given width, and the year, are fixed by their value.
\<close>

lemma is_digit_cases:
  assumes "is_digit c"
  shows "c = CHR ''0'' \<or> c = CHR ''1'' \<or> c = CHR ''2'' \<or> c = CHR ''3'' \<or> c = CHR ''4'' \<or>
         c = CHR ''5'' \<or> c = CHR ''6'' \<or> c = CHR ''7'' \<or> c = CHR ''8'' \<or> c = CHR ''9''"
  using assms by (simp add: is_digit_def)

lemma digit_value_less: "is_digit c \<Longrightarrow> digit_value c < 10"
  by (drule is_digit_cases) (elim disjE; simp add: digit_value_def)

lemma digit_value_pos: "is_digit c \<Longrightarrow> c \<noteq> CHR ''0'' \<Longrightarrow> 1 \<le> digit_value c"
  by (drule is_digit_cases) (elim disjE; simp add: digit_value_def)

lemma digit_value_inj:
  assumes "is_digit c" "is_digit c'" "digit_value c = digit_value c'"
  shows "c = c'"
  using is_digit_cases [OF assms(1)] is_digit_cases [OF assms(2)] assms(3)
  by (elim disjE; simp add: digit_value_def)

lemma read_decimal_inj:
  assumes "length s = length s'" "list_all is_digit s" "list_all is_digit s'"
    and "read_decimal s = read_decimal s'"
  shows "s = s'"
  using assms
proof (induction s arbitrary: s' rule: rev_induct)
  case Nil
  then show ?case by simp
next
  case (snoc x xs)
  from snoc.prems(1) obtain y ys where s': "s' = ys @ [y]"
    by (cases s' rule: rev_cases) simp_all
  from snoc.prems(2) have dx: "is_digit x" "list_all is_digit xs" by simp_all
  from snoc.prems(3) have dy: "is_digit y" "list_all is_digit ys" by (simp_all add: s')
  from snoc.prems(4) have
    "10 * read_decimal xs + digit_value x = 10 * read_decimal ys + digit_value y"
    by (simp add: s' read_decimal_snoc)
  with digit_value_less [OF dx(1)] digit_value_less [OF dy(1)]
  have e: "10 * read_decimal xs + digit_value x = 10 * read_decimal ys + digit_value y"
    "digit_value x < 10" "digit_value y < 10" by simp_all
  then have e1: "read_decimal xs = read_decimal ys" by linarith
  with e(1) have e2: "digit_value x = digit_value y" by simp
  note eq = e1 e2
  from snoc.prems(1) have "length xs = length ys" by (simp add: s')
  from snoc.IH [OF this dx(2) dy(2) eq(1)] digit_value_inj [OF dx(1) dy(1) eq(2)]
  show ?case by (simp add: s')
qed

lemma read_decimal_less: "list_all is_digit s \<Longrightarrow> read_decimal s < 10 ^ length s"
proof (induction s rule: rev_induct)
  case Nil
  show ?case by (simp add: read_decimal_def)
next
  case (snoc x xs)
  then have "read_decimal xs < 10 ^ length xs" "digit_value x < 10"
    by (simp_all add: digit_value_less)
  then have "10 * read_decimal xs + digit_value x < 10 * 10 ^ length xs" by linarith
  then show ?case by (simp add: read_decimal_snoc)
qed

lemma read_decimal_ge:
  "list_all is_digit s \<Longrightarrow> s \<noteq> [] \<Longrightarrow> hd s \<noteq> CHR ''0'' \<Longrightarrow> 10 ^ (length s - 1) \<le> read_decimal s"
proof (induction s rule: rev_induct)
  case Nil
  then show ?case by simp
next
  case (snoc x xs)
  show ?case
  proof (cases "xs = []")
    case True
    with snoc.prems have "is_digit x" "x \<noteq> CHR ''0''" by simp_all
    from digit_value_pos [OF this] True show ?thesis by (simp add: read_decimal_single)
  next
    case False
    with snoc.prems have "list_all is_digit xs" "hd xs \<noteq> CHR ''0''" by simp_all
    from snoc.IH [OF this(1) False this(2)]
    have "10 * 10 ^ (length xs - 1) \<le> 10 * read_decimal xs" by simp
    moreover from False have "(10::nat) * 10 ^ (length xs - 1) = 10 ^ length xs"
      by (cases xs) simp_all
    ultimately have "10 ^ length xs \<le> 10 * read_decimal xs + digit_value x" by linarith
    then show ?thesis by (simp add: read_decimal_snoc)
  qed
qed

lemma decimal_unique: "decimal w s v \<Longrightarrow> decimal w s' v \<Longrightarrow> s = s'"
  unfolding decimal_def by (intro read_decimal_inj) simp_all

lemma decimal_less: "decimal w s v \<Longrightarrow> v < 10 ^ w"
proof -
  assume d: "decimal w s v"
  then have "read_decimal s < 10 ^ length s" by (intro read_decimal_less) (simp add: decimal_def)
  then have "int (read_decimal s) < 10 ^ length s" by (simp flip: of_nat_less_iff)
  with d show ?thesis by (simp add: decimal_def)
qed

lemma long_decimal_ge: "long_decimal w s v \<Longrightarrow> 10 ^ w \<le> v"
proof -
  assume l: "long_decimal w s v"
  then have ne: "s \<noteq> []" by (auto simp: long_decimal_def)
  with l have "10 ^ (length s - 1) \<le> read_decimal s"
    by (intro read_decimal_ge) (simp_all add: long_decimal_def)
  moreover from l have "w < length s" by (simp add: long_decimal_def)
  then have "w \<le> length s - 1" by simp
  then have "(10::nat) ^ w \<le> 10 ^ (length s - 1)" by (intro power_increasing) simp_all
  ultimately have "10 ^ w \<le> read_decimal s" by (rule order_trans [rotated])
  then have "(10::int) ^ w \<le> int (read_decimal s)" by (simp flip: of_nat_le_iff)
  with l show ?thesis by (simp add: long_decimal_def)
qed

lemma long_decimal_unique:
  assumes "long_decimal w s v" "long_decimal w s' v"
  shows "s = s'"
proof -
  from assms have d: "list_all is_digit s" "list_all is_digit s'"
    and h: "hd s \<noteq> CHR ''0''" "hd s' \<noteq> CHR ''0''"
    and ne: "s \<noteq> []" "s' \<noteq> []"
    and r: "read_decimal s = read_decimal s'"
    by (auto simp: long_decimal_def)
  have len: "length t \<le> length t'"
    if "list_all is_digit t" "list_all is_digit t'" "t \<noteq> []" "hd t \<noteq> CHR ''0''"
      "read_decimal t = read_decimal t'" for t t'
  proof (rule ccontr)
    assume "\<not> length t \<le> length t'"
    then have "length t' \<le> length t - 1" by simp
    then have "(10::nat) ^ length t' \<le> 10 ^ (length t - 1)" by (intro power_increasing) simp_all
    with read_decimal_ge [OF that(1,3,4)] read_decimal_less [OF that(2)] that(5)
    show False by linarith
  qed
  from len [OF d(1) d(2) ne(1) h(1) r] len [OF d(2) d(1) ne(2) h(2) r [symmetric]]
  have "length s = length s'" by simp
  from read_decimal_inj [OF this d r] show ?thesis .
qed

lemma unsigned_year_unique:
  assumes "decimal 4 s v \<or> long_decimal 4 s v" "decimal 4 s' v \<or> long_decimal 4 s' v"
  shows "s = s'"
proof (cases "v < 10 ^ 4")
  case True
  with long_decimal_ge [of 4 _ v] assms have "decimal 4 s v" "decimal 4 s' v" by fastforce+
  then show ?thesis by (rule decimal_unique)
next
  case False
  with decimal_less [of 4 _ v] assms have "long_decimal 4 s v" "long_decimal 4 s' v"
    by fastforce+
  then show ?thesis by (rule long_decimal_unique)
qed

lemma year_field_unique:
  assumes "year_field s y" "year_field s' y"
  shows "s = s'"
proof (cases "0 \<le> y")
  case True
  with assms show ?thesis by (intro unsigned_year_unique [of s y s']) (simp_all add: year_field_def)
next
  case False
  with assms have ne: "s \<noteq> []" "s' \<noteq> []" and hd: "hd s = hd s'"
    and a: "decimal 4 (tl s) (- y) \<or> long_decimal 4 (tl s) (- y)"
    and b: "decimal 4 (tl s') (- y) \<or> long_decimal 4 (tl s') (- y)"
    by (simp_all add: year_field_def)
  from unsigned_year_unique [OF a b] have "tl s = tl s'" .
  with ne hd show ?thesis by (cases s; cases s') simp_all
qed

subsection \<open>The column key\<close>

lemma valid_date_bounds:
  assumes "valid_date y m d"
  shows "1 \<le> m" "m \<le> 12" "1 \<le> d" "d \<le> 31"
proof -
  from assms show m: "1 \<le> m" "m \<le> 12" and "1 \<le> d" by (simp_all add: valid_date_def)
  from assms have d: "d \<le> month_lengths y ! nat (m - 1)" by (simp add: valid_date_def)
  have "month_lengths y ! nat (m - 1) \<le> 31"
    unfolding month_lengths_nth [OF m] using month_start_cases [OF m]
    by (elim disjE) (simp_all add: common_lengths_def)
  with d show "d \<le> 31" by (rule order_trans)
qed

lemma decimal_two_digits:
  assumes "0 \<le> x" "x < 100"
  shows "decimal 2 (appendInt x 2) x"
proof -
  from assms(2) have "x < 10 ^ 2" by simp
  from decimal_appendInt [OF assms(1) this] show ?thesis by simp
qed

text \<open>
  The formatter is right at every instant: the fields it prints are decimal numerals
  of the civil date and time of the instant.
\<close>

lemma format_RFC3339_UTC_civil:
  "\<exists>y mo d h mi s Y Mo D H Mi S.
     valid_date y mo d \<and> 0 \<le> h \<and> h < 24 \<and> 0 \<le> mi \<and> mi < 60 \<and> 0 \<le> s \<and> s < 60 \<and>
     t = instant_of y mo d h mi s \<and>
     year_field Y y \<and> decimal 2 Mo mo \<and> decimal 2 D d \<and>
     decimal 2 H h \<and> decimal 2 Mi mi \<and> decimal 2 S s \<and>
     format_RFC3339_UTC t =
       Y @ ''-'' @ Mo @ ''-'' @ D @ ''T'' @ H @ '':'' @ Mi @ '':'' @ S @ ''Z''"
proof -
  obtain y mo d where c: "civil_from_days (t div 86400) = (y, mo, d)"
    by (cases "civil_from_days (t div 86400)")
  define h where "h = t mod 86400 div 3600"
  define mi where "mi = t mod 86400 mod 3600 div 60"
  define s where "s = t mod 86400 mod 60"
  from civil_from_days_correct [OF c]
  have valid: "valid_date y mo d" and dn: "day_number y mo d = t div 86400" by simp_all
  note b = valid_date_bounds [OF valid]
  have tod: "0 \<le> h" "h < 24" "0 \<le> mi" "mi < 60" "0 \<le> s" "s < 60"
    unfolding h_def mi_def s_def by (rule time_of_day)+
  have "t = 86400 * (t div 86400) + 3600 * h + 60 * mi + s"
    unfolding h_def mi_def s_def by (rule time_of_day)
  then have inst: "t = instant_of y mo d h mi s" by (simp add: instant_of_def dn)
  have fmt: "format_RFC3339_UTC t =
      appendInt y 4 @ ''-'' @ appendInt mo 2 @ ''-'' @ appendInt d 2 @ ''T'' @
      appendInt h 2 @ '':'' @ appendInt mi 2 @ '':'' @ appendInt s 2 @ ''Z''"
    unfolding format_RFC3339_UTC_def c h_def mi_def s_def Let_def by simp
  have "decimal 2 (appendInt mo 2) mo" using b by (intro decimal_two_digits) simp_all
  moreover have "decimal 2 (appendInt d 2) d" using b by (intro decimal_two_digits) simp_all
  moreover have "decimal 2 (appendInt h 2) h" using tod by (intro decimal_two_digits) simp_all
  moreover have "decimal 2 (appendInt mi 2) mi" using tod by (intro decimal_two_digits) simp_all
  moreover have "decimal 2 (appendInt s 2) s" using tod by (intro decimal_two_digits) simp_all
  moreover note year_field_appendInt [of y] valid tod inst fmt
  ultimately show ?thesis by blast
qed

text \<open>
  C8. The column key of a run is its identity string: browser name, browser version,
  OS name and OS version joined by \<open>-\<close>, then \<open>@\<close> and the full revision hash, then
  \<open>#\<close> and the creation time in UTC in RFC 3339. For every run, the creation time is
  the instant of a civil date and time of UTC (year \<open>y\<close>, month \<open>mo\<close>, day \<open>d\<close>,
  hour \<open>h\<close>, minute \<open>mi\<close>, second \<open>s\<close>, which by \<open>civil_time_unique\<close> are the only
  ones), and the column key ends in the year, \<open>-\<close>, the month, \<open>-\<close>, the day, \<open>T\<close>,
  the hour, \<open>:\<close>, the minute, \<open>:\<close>, the second and \<open>Z\<close>, the year in four digits
  (more beyond 9999, a minus sign before 0) and the others in two; by
  \<open>year_field_unique\<close> and \<open>decimal_unique\<close> these are the only such strings. For
  firefox 70 on linux 5.0 at revision abc123, created at 2020-01-01T00:00:00Z
  (1577836800 seconds after the epoch), the column key is
  \<open>firefox-70-linux-5.0@abc123#2020-01-01T00:00:00Z\<close>.
\<close>

theorem colID_identity_string:
  "(\<exists>y mo d h mi s Y Mo D H Mi S.
      valid_date y mo d \<and> 0 \<le> h \<and> h < 24 \<and> 0 \<le> mi \<and> mi < 60 \<and> 0 \<le> s \<and> s < 60 \<and>
      CreatedAt run = instant_of y mo d h mi s \<and>
      year_field Y y \<and> decimal 2 Mo mo \<and> decimal 2 D d \<and>
      decimal 2 H h \<and> decimal 2 Mi mi \<and> decimal 2 S s \<and>
      colID run =
        BrowserName run @ ''-'' @ BrowserVersion run @ ''-'' @ OSName run @ ''-'' @
        OSVersion run @ ''@'' @ FullRevisionHash run @ ''#'' @
        Y @ ''-'' @ Mo @ ''-'' @ D @ ''T'' @ H @ '':'' @ Mi @ '':'' @ S @ ''Z'')
   \<and> colID \<lparr>BrowserName = ''firefox'', BrowserVersion = ''70'', OSName = ''linux'',
            OSVersion = ''5.0'', FullRevisionHash = ''abc123'', CreatedAt = 1577836800,
            RawResultsURL = url\<rparr> = ''firefox-70-linux-5.0@abc123#2020-01-01T00:00:00Z''"
proof -
  from format_RFC3339_UTC_civil [of "CreatedAt run"]
  obtain y mo d h mi s Y Mo D H Mi S where f:
    "valid_date y mo d" "0 \<le> h" "h < 24" "0 \<le> mi" "mi < 60" "0 \<le> s" "s < 60"
    "CreatedAt run = instant_of y mo d h mi s"
    "year_field Y y" "decimal 2 Mo mo" "decimal 2 D d"
    "decimal 2 H h" "decimal 2 Mi mi" "decimal 2 S s"
    "format_RFC3339_UTC (CreatedAt run) =
       Y @ ''-'' @ Mo @ ''-'' @ D @ ''T'' @ H @ '':'' @ Mi @ '':'' @ S @ ''Z''"
    by blast
  have "colID run =
      BrowserName run @ ''-'' @ BrowserVersion run @ ''-'' @ OSName run @ ''-'' @
      OSVersion run @ ''@'' @ FullRevisionHash run @ ''#'' @
      Y @ ''-'' @ Mo @ ''-'' @ D @ ''T'' @ H @ '':'' @ Mi @ '':'' @ S @ ''Z''"
    unfolding colID_def runID_def f(15) ..
  with f(1-14) have general: "\<exists>y mo d h mi s Y Mo D H Mi S.
      valid_date y mo d \<and> 0 \<le> h \<and> h < 24 \<and> 0 \<le> mi \<and> mi < 60 \<and> 0 \<le> s \<and> s < 60 \<and>
      CreatedAt run = instant_of y mo d h mi s \<and>
      year_field Y y \<and> decimal 2 Mo mo \<and> decimal 2 D d \<and>
      decimal 2 H h \<and> decimal 2 Mi mi \<and> decimal 2 S s \<and>
      colID run =
        BrowserName run @ ''-'' @ BrowserVersion run @ ''-'' @ OSName run @ ''-'' @
        OSVersion run @ ''@'' @ FullRevisionHash run @ ''#'' @
        Y @ ''-'' @ Mo @ ''-'' @ D @ ''T'' @ H @ '':'' @ Mi @ '':'' @ S @ ''Z''"
    by blast
  have "colID \<lparr>BrowserName = ''firefox'', BrowserVersion = ''70'', OSName = ''linux'',
            OSVersion = ''5.0'', FullRevisionHash = ''abc123'', CreatedAt = 1577836800,
            RawResultsURL = url\<rparr> = ''firefox-70-linux-5.0@abc123#2020-01-01T00:00:00Z''"
    by (simp add: colID_def runID_def format_2020)
  with general show ?thesis by (rule conjI)
qed

theorem colID_identity_string_witness:
  "valid_date 2020 1 1 \<and> CreatedAt example_run = instant_of 2020 1 1 0 0 0 \<and>
   colID example_run = ''firefox-70-linux-5.0@abc123#2020-01-01T00:00:00Z''"
proof -
  from colID_identity_string [of example_run, THEN conjunct1]
  obtain y mo d h mi s Y Mo D H Mi S where f:
    "valid_date y mo d" "0 \<le> h" "h < 24" "0 \<le> mi" "mi < 60" "0 \<le> s" "s < 60"
    "CreatedAt example_run = instant_of y mo d h mi s"
    "year_field Y y" "decimal 2 Mo mo" "decimal 2 D d"
    "decimal 2 H h" "decimal 2 Mi mi" "decimal 2 S s"
    "colID example_run =
       BrowserName example_run @ ''-'' @ BrowserVersion example_run @ ''-'' @
       OSName example_run @ ''-'' @ OSVersion example_run @ ''@'' @
       FullRevisionHash example_run @ ''#'' @
       Y @ ''-'' @ Mo @ ''-'' @ D @ ''T'' @ H @ '':'' @ Mi @ '':'' @ S @ ''Z''"
    by (elim exE conjE)
  have v: "valid_date 2020 1 1" by (simp add: valid_date_def month_lengths_def)
  have i: "CreatedAt example_run = instant_of 2020 1 1 0 0 0"
    by (simp add: example_run_def instant_of_def day_number_def days_before_year_def
        month_lengths_def)
  have "y = 2020 \<and> mo = 1 \<and> d = 1 \<and> h = 0 \<and> mi = 0 \<and> s = 0"
    by (rule civil_time_unique [OF f(1-7) v]) (simp_all add: f(8) [symmetric] i)
  with f(9-14) have fields: "year_field Y 2020" "decimal 2 Mo 1" "decimal 2 D 1"
    "decimal 2 H 0" "decimal 2 Mi 0" "decimal 2 S 0" by simp_all
  have numerals: "year_field ''2020'' 2020" "decimal 2 ''01'' 1" "decimal 2 ''00'' 0"
    by (simp_all add: year_field_def decimal_def is_digit_def read_decimal_def digit_value_def)
  have strings: "Y = ''2020''" "Mo = ''01''" "D = ''01''" "H = ''00''" "Mi = ''00''" "S = ''00''"
    using fields numerals by (blast intro: year_field_unique decimal_unique)+
  have "colID example_run = ''firefox-70-linux-5.0@abc123#2020-01-01T00:00:00Z''"
    unfolding f(15) strings by (simp add: example_run_def)
  with v i show ?thesis by simp
qed

section \<open>Row keys\<close>

lemma sub_cell_row: "c_row (sub_cell fam run ts res sub) = Test res"
  by (simp add: sub_cell_def rowID_def)

lemma result_cells_row:
  "c \<in> set (result_cells fam run ts res) \<Longrightarrow> c_row c = Test res"
  by (auto simp: result_cells_def rowID_def sub_cell_row split: if_splits)

lemma rowID_sub_differs: "Test res \<noteq> rowID res (Some sub)"
  by (simp add: rowID_def)

text \<open>
  C1. Every cell emitted for a test result has the result's test identifier as its row
  key, and this includes the cell of every sub-result; the row key is never the
  identifier \<open>test:subtest\<close> that \<^const>\<open>rowID\<close> computes for a sub-result. Every cell
  emitted for a sequence of results is a cell of one of them, with that result's
  identifier as row key.
\<close>

theorem row_key_is_test_identifier:
  "(\<forall>c \<in> set (result_cells fam run ts res).
      c_row c = Test res \<and> (\<forall>sub. c_row c \<noteq> rowID res (Some sub))) \<and>
   (\<forall>sub \<in> set (Subtests res).
      sub_cell fam run ts res sub \<in> set (result_cells fam run ts res) \<and>
      c_row (sub_cell fam run ts res sub) = Test res) \<and>
   (\<forall>c \<in> set (report_cells fam run ts results).
      \<exists>res \<in> set results. c \<in> set (result_cells fam run ts res) \<and> c_row c = Test res)"
proof (intro conjI ballI)
  fix c assume "c \<in> set (result_cells fam run ts res)"
  then show "c_row c = Test res" by (rule result_cells_row)
  then show "\<forall>sub. c_row c \<noteq> rowID res (Some sub)" by (simp add: rowID_sub_differs)
next
  fix sub assume "sub \<in> set (Subtests res)"
  then show "sub_cell fam run ts res sub \<in> set (result_cells fam run ts res)"
    by (auto simp: result_cells_def)
  show "c_row (sub_cell fam run ts res sub) = Test res" by (rule sub_cell_row)
next
  fix c assume "c \<in> set (report_cells fam run ts results)"
  then obtain res where "res \<in> set results" "c \<in> set (result_cells fam run ts res)"
    by (auto simp: report_cells_def)
  then show "\<exists>res \<in> set results. c \<in> set (result_cells fam run ts res) \<and> c_row c = Test res"
    using result_cells_row by blast
qed

theorem row_key_is_test_identifier_witness:
  "map c_row (result_cells ''runs'' example_run 7 example_result) = [''/dom/a.html'', ''/dom/a.html''] \<and>
   c_row (sub_cell ''runs'' example_run 7 example_result
            \<lparr>sub_Name = ''first'', sub_Status = ''PASS'', sub_Message = None\<rparr>) = ''/dom/a.html'' \<and>
   rowID example_result (Some \<lparr>sub_Name = ''first'', sub_Status = ''PASS'', sub_Message = None\<rparr>) =
     ''/dom/a.html:first'' \<and>
   map c_row (report_cells ''runs'' example_run 7 [example_result, example_result2]) =
     [''/dom/a.html'', ''/dom/a.html'', ''/dom/b.html'']"
proof -
  let ?s1 = "\<lparr>sub_Name = ''first'', sub_Status = ''PASS'', sub_Message = None\<rparr>"
  note t = row_key_is_test_identifier [of "''runs''" example_run 7 example_result
      "[example_result, example_result2]"]
  from t have "\<forall>c \<in> set (result_cells ''runs'' example_run 7 example_result). c_row c = Test example_result"
    by blast
  then have a: "map c_row (result_cells ''runs'' example_run 7 example_result) =
      [''/dom/a.html'', ''/dom/a.html'']"
    by (simp add: example_result_def result_cells_def)
  from t have "\<forall>sub \<in> set (Subtests example_result).
      c_row (sub_cell ''runs'' example_run 7 example_result sub) = Test example_result" by blast
  then have b: "c_row (sub_cell ''runs'' example_run 7 example_result ?s1) = ''/dom/a.html''"
    by (simp add: example_result_def)
  have c: "rowID example_result (Some ?s1) = ''/dom/a.html:first''"
    by (simp add: rowID_def example_result_def)
  have d: "map c_row (report_cells ''runs'' example_run 7 [example_result, example_result2]) =
     [''/dom/a.html'', ''/dom/a.html'', ''/dom/b.html'']"
    by (simp add: example_result_def example_result2_def report_cells_def
        result_cells_def sub_cell_def rowID_def has_message_def)
  from a b c d show ?thesis by simp
qed

section \<open>Cell values\<close>

lemma has_message_absent: "has_message m = (\<not> message_absent m)"
  by (cases m) (simp_all add: has_message_def message_absent_def)

lemma has_message_Some: "has_message (Some m) = (m \<noteq> [])"
  by (simp add: has_message_def)

text \<open>
  C2. The value of a cell is composed as in the table of six rows. A result without
  sub-results gives one cell, \<open>STATUS\<close> when its message is absent (nil or empty) and
  \<open>STATUS#MESSAGE\<close> otherwise. A result with sub-results gives one cell for each
  sub-result, in order: \<open>STATUS$SUBSTATUS\<close>, \<open>STATUS$SUBSTATUS#SUBMESSAGE\<close>,
  \<open>STATUS#MESSAGE$SUBSTATUS\<close> or \<open>STATUS#MESSAGE$SUBSTATUS#SUBMESSAGE\<close>, according to
  which of the two messages are present.
\<close>

theorem value_encoding_table:
  "(Subtests res = [] \<and> message_absent (Message res) \<longrightarrow>
      map c_value (result_cells fam run ts res) = [Status res]) \<and>
   (Subtests res = [] \<and> Message res = Some m \<and> m \<noteq> [] \<longrightarrow>
      map c_value (result_cells fam run ts res) = [Status res @ ''#'' @ m]) \<and>
   (Subtests res \<noteq> [] \<longrightarrow>
      map c_value (result_cells fam run ts res) =
      map (\<lambda>sub. c_value (sub_cell fam run ts res sub)) (Subtests res)) \<and>
   (message_absent (Message res) \<and> message_absent (sub_Message sub) \<longrightarrow>
      c_value (sub_cell fam run ts res sub) = Status res @ ''$'' @ sub_Status sub) \<and>
   (message_absent (Message res) \<and> sub_Message sub = Some sm \<and> sm \<noteq> [] \<longrightarrow>
      c_value (sub_cell fam run ts res sub) = Status res @ ''$'' @ sub_Status sub @ ''#'' @ sm) \<and>
   (Message res = Some m \<and> m \<noteq> [] \<and> message_absent (sub_Message sub) \<longrightarrow>
      c_value (sub_cell fam run ts res sub) = Status res @ ''#'' @ m @ ''$'' @ sub_Status sub) \<and>
   (Message res = Some m \<and> m \<noteq> [] \<and> sub_Message sub = Some sm \<and> sm \<noteq> [] \<longrightarrow>
      c_value (sub_cell fam run ts res sub) =
      Status res @ ''#'' @ m @ ''$'' @ sub_Status sub @ ''#'' @ sm)"
proof (intro conjI impI)
  assume "Subtests res = [] \<and> message_absent (Message res)"
  then show "map c_value (result_cells fam run ts res) = [Status res]"
    by (simp add: result_cells_def has_message_absent)
next
  assume "Subtests res = [] \<and> Message res = Some m \<and> m \<noteq> []"
  then show "map c_value (result_cells fam run ts res) = [Status res @ ''#'' @ m]"
    by (simp add: result_cells_def has_message_Some)
next
  assume "Subtests res \<noteq> []"
  then show "map c_value (result_cells fam run ts res) =
      map (\<lambda>sub. c_value (sub_cell fam run ts res sub)) (Subtests res)"
    by (simp add: result_cells_def comp_def)
next
  assume "message_absent (Message res) \<and> message_absent (sub_Message sub)"
  then show "c_value (sub_cell fam run ts res sub) = Status res @ ''$'' @ sub_Status sub"
    by (simp add: sub_cell_def has_message_absent)
next
  assume "message_absent (Message res) \<and> sub_Message sub = Some sm \<and> sm \<noteq> []"
  then show "c_value (sub_cell fam run ts res sub) = Status res @ ''$'' @ sub_Status sub @ ''#'' @ sm"
    by (simp add: sub_cell_def has_message_absent [of "Message res"] has_message_Some)
next
  assume "Message res = Some m \<and> m \<noteq> [] \<and> message_absent (sub_Message sub)"
  then show "c_value (sub_cell fam run ts res sub) = Status res @ ''#'' @ m @ ''$'' @ sub_Status sub"
    by (simp add: sub_cell_def has_message_absent [of "sub_Message sub"] has_message_Some)
next
  assume "Message res = Some m \<and> m \<noteq> [] \<and> sub_Message sub = Some sm \<and> sm \<noteq> []"
  then show "c_value (sub_cell fam run ts res sub) =
      Status res @ ''#'' @ m @ ''$'' @ sub_Status sub @ ''#'' @ sm"
    by (simp add: sub_cell_def has_message_Some)
qed

theorem value_encoding_table_witness:
  "map c_value (result_cells ''runs'' example_run 7 example_result) = [''OK$PASS'', ''OK$FAIL#boom''] \<and>
   map c_value (result_cells ''runs'' example_run 7 example_result2) = [''ERROR#late''] \<and>
   map c_value (result_cells ''runs'' example_run 7 (example_result2\<lparr>Message := None\<rparr>)) = [''ERROR''] \<and>
   c_value (sub_cell ''runs'' example_run 7 example_result2
              \<lparr>sub_Name = ''first'', sub_Status = ''PASS'', sub_Message = Some []\<rparr>) = ''ERROR#late$PASS'' \<and>
   c_value (sub_cell ''runs'' example_run 7 example_result2
              \<lparr>sub_Name = ''second'', sub_Status = ''FAIL'', sub_Message = Some ''boom''\<rparr>) =
     ''ERROR#late$FAIL#boom''"
proof -
  let ?s1 = "\<lparr>sub_Name = ''first'', sub_Status = ''PASS'', sub_Message = None\<rparr>"
  let ?s2 = "\<lparr>sub_Name = ''second'', sub_Status = ''FAIL'', sub_Message = Some ''boom''\<rparr>"
  let ?s3 = "\<lparr>sub_Name = ''first'', sub_Status = ''PASS'', sub_Message = Some []\<rparr>"
  note t = value_encoding_table [of _ "''runs''" example_run 7]
  have a: "map c_value (result_cells ''runs'' example_run 7 example_result) =
             [c_value (sub_cell ''runs'' example_run 7 example_result ?s1),
              c_value (sub_cell ''runs'' example_run 7 example_result ?s2)]"
    using t [of example_result "[]" ?s1 "[]"] by (simp add: example_result_def)
  have b: "c_value (sub_cell ''runs'' example_run 7 example_result ?s1) = ''OK$PASS''"
    using t [of example_result "[]" ?s1 "[]"] by (simp add: example_result_def message_absent_def)
  have c: "c_value (sub_cell ''runs'' example_run 7 example_result ?s2) = ''OK$FAIL#boom''"
    using t [of example_result "[]" ?s2 "''boom''"] by (simp add: example_result_def message_absent_def)
  have d: "map c_value (result_cells ''runs'' example_run 7 example_result2) = [''ERROR#late'']"
    using t [of example_result2 "''late''" ?s1 "[]"] by (simp add: example_result2_def)
  have e: "map c_value (result_cells ''runs'' example_run 7 (example_result2\<lparr>Message := None\<rparr>)) = [''ERROR'']"
    using t [of "example_result2\<lparr>Message := None\<rparr>" "[]" ?s1 "[]"]
    by (simp add: example_result2_def message_absent_def)
  have f: "c_value (sub_cell ''runs'' example_run 7 example_result2 ?s3) = ''ERROR#late$PASS''"
    using t [of example_result2 "''late''" ?s3 "[]"] by (simp add: example_result2_def message_absent_def)
  have g: "c_value (sub_cell ''runs'' example_run 7 example_result2 ?s2) = ''ERROR#late$FAIL#boom''"
    using t [of example_result2 "''late''" ?s2 "''boom''"] by (simp add: example_result2_def)
  from a b c d e f g show ?thesis by simp
qed

section \<open>The batch: one call of set\<close>

lemma apply_bulk_ok:
  assumes "rows st \<noteq> []"
  shows "\<exists>l. \<not> is_warning l \<and>
           apply_bulk env st =
             Inr (st\<lparr>bulk_calls := bulk_calls st @ [(rows st, deref st)],
                     task_log := task_log st @ [l]\<rparr>)"
proof -
  obtain r0 rs where rs: "rows st = r0 # rs" using assms by (cases "rows st") auto
  obtain es e where r: "ApplyBulk env (length (bulk_calls st)) (rows st) (deref st) = BulkResult es e"
    by (cases "ApplyBulk env (length (bulk_calls st)) (rows st) (deref st)") auto
  consider (some) "es \<noteq> []" | (whole) "es = []" "e \<noteq> None" | (ok) "es = []" "e = None"
    by blast
  then show ?thesis
  proof cases
    case some
    then show ?thesis
      using r by (intro exI [of _ "Erro_some_writes_failed es"])
                 (simp add: apply_bulk_def deref_def Let_def)
  next
    case whole
    then show ?thesis
      using r by (intro exI [of _ "Erro_bulk_write_failed (the e)"])
                 (simp add: apply_bulk_def deref_def Let_def)
  next
    case ok
    then show ?thesis
      using r rs by (intro exI [of _ "Info_bulk_write_success (length (muts st)) r0"])
                    (simp add: apply_bulk_def deref_def Let_def)
  qed
qed

lemma pending_length: "pending st p \<Longrightarrow> length (muts st) = length p \<and> length (rows st) = length p"
  unfolding pending_def deref_def by (metis length_map)

lemma pending_init: "pending (init_task l) []"
  by (simp add: pending_def deref_def init_task_def)

lemma heap_alloc_set: "(h @ [[]])[length h := (h @ [[]]) ! length h @ [x]] = h @ [[x]]"
  by (simp add: list_update_append)

lemma deref_grow:
  assumes "\<forall>m \<in> set ms. m < length h"
  shows "map (\<lambda>m. (h @ h') ! m) ms = map (\<lambda>m. h ! m) ms"
  using assms by (auto simp: nth_append)

lemma set_cell_append:
  assumes "pending st p" "length p \<noteq> maxN"
  shows "\<exists>st'. set_cell env maxN st c = Inr st' \<and> pending st' (p @ [c]) \<and>
               bulk_calls st' = bulk_calls st \<and> task_log st' = task_log st \<and>
               muts st' = muts st @ [length (heap st)] \<and> rows st' = rows st @ [c_row c]"
proof -
  let ?x = "SetCell (c_family c) (c_column c) (c_ts c) (c_value c)"
  let ?st' = "st\<lparr>heap := heap st @ [[?x]], muts := muts st @ [length (heap st)],
                 rows := rows st @ [c_row c]\<rparr>"
  from assms have len: "length (muts st) \<noteq> maxN" using pending_length by metis
  from assms(1) have b: "\<forall>m \<in> set (muts st). m < length (heap st)" by (simp add: pending_def)
  from assms(1) have d: "map (\<lambda>m. heap st ! m) (muts st) = map mutation_of p"
    by (simp add: pending_def deref_def)
  from assms(1) have r: "rows st = map c_row p" by (simp add: pending_def)
  have eq: "set_cell env maxN st c = Inr ?st'"
    using len by (simp add: set_cell_def Let_def heap_alloc_set)
  have "deref ?st' = map mutation_of (p @ [c])"
    using deref_grow [OF b, of "[[?x]]"] d by (simp add: deref_def mutation_of_def)
  moreover have "\<forall>m \<in> set (muts ?st'). m < length (heap ?st')"
    using b by (auto intro: less_SucI)
  ultimately have "pending ?st' (p @ [c])" using r by (simp add: pending_def)
  then show ?thesis using eq by simp
qed

lemma set_cell_flush:
  assumes "pending st p" "length p = maxN" "0 < maxN"
  shows "\<exists>st' l. set_cell env maxN st c = Inr st' \<and> pending st' [c] \<and> \<not> is_warning l \<and>
               bulk_calls st' = bulk_calls st @ [batch_of p] \<and> task_log st' = task_log st @ [l] \<and>
               bulk_calls st' = bulk_calls st @ [(rows st, deref st)] \<and>
               muts st' = [length (heap st)] \<and> rows st' = [c_row c]"
proof -
  let ?x = "SetCell (c_family c) (c_column c) (c_ts c) (c_value c)"
  let ?st0 = "st\<lparr>heap := heap st @ [[]]\<rparr>"
  from assms have len: "length (muts st) = maxN" using pending_length by metis
  from assms(1) have b: "\<forall>m \<in> set (muts st). m < length (heap st)" by (simp add: pending_def)
  from assms(1) have d: "deref st = map mutation_of p" by (simp add: pending_def)
  from assms(1) have r: "rows st = map c_row p" by (simp add: pending_def)
  have d0: "deref ?st0 = deref st" using deref_grow [OF b, of "[[]]"] by (simp add: deref_def)
  from assms r have "rows ?st0 \<noteq> []" by auto
  from apply_bulk_ok [OF this, of env] obtain l where l: "\<not> is_warning l"
    and ab: "apply_bulk env ?st0 =
       Inr (?st0\<lparr>bulk_calls := bulk_calls ?st0 @ [(rows ?st0, deref ?st0)],
                 task_log := task_log ?st0 @ [l]\<rparr>)" by blast
  let ?st' = "st\<lparr>heap := heap st @ [[?x]], muts := [length (heap st)], rows := [c_row c],
                 bulk_calls := bulk_calls st @ [(rows st, deref st)],
                 task_log := task_log st @ [l]\<rparr>"
  have eq: "set_cell env maxN st c = Inr ?st'"
    using len by (simp add: set_cell_def Let_def ab d0 heap_alloc_set)
  have "pending ?st' [c]" by (simp add: pending_def deref_def mutation_of_def)
  then show ?thesis using eq l r d by (simp add: batch_of_def)
qed


lemma chunks_Nil: "chunks n [] = []"
  by (simp add: chunks.simps)

lemma chunks_single: "0 < n \<Longrightarrow> xs \<noteq> [] \<Longrightarrow> length xs \<le> n \<Longrightarrow> chunks n xs = [xs]"
  by (simp add: chunks.simps [of n xs] chunks_Nil)

lemma chunks_full:
  assumes "0 < n" "length xs = n"
  shows "chunks n (xs @ ys) = xs # chunks n ys"
proof -
  from assms have "xs \<noteq> []" by auto
  with assms show ?thesis by (simp add: chunks.simps [of n "xs @ ys"])
qed

lemma chunks_nonempty: "0 < n \<Longrightarrow> xs \<noteq> [] \<Longrightarrow> chunks n xs \<noteq> []"
  by (simp add: chunks.simps [of n xs])

lemma last_chunk_full:
  "0 < n \<Longrightarrow> length xs = n \<Longrightarrow> ys \<noteq> [] \<Longrightarrow> last_chunk n (xs @ ys) = last_chunk n ys"
  by (simp add: last_chunk_def chunks_full chunks_nonempty)

lemma butlast_chunks_full:
  "0 < n \<Longrightarrow> length xs = n \<Longrightarrow> ys \<noteq> [] \<Longrightarrow>
   butlast (chunks n (xs @ ys)) = xs # butlast (chunks n ys)"
  by (simp add: chunks_full chunks_nonempty)

lemma set_cells_chunks:
  assumes "0 < maxN"
  shows "pending st p \<Longrightarrow> length p \<le> maxN \<Longrightarrow>
         \<exists>st' ls. set_cells env maxN st cs = Inr st' \<and>
            pending st' (last_chunk maxN (p @ cs)) \<and>
            bulk_calls st' = bulk_calls st @ map batch_of (butlast (chunks maxN (p @ cs))) \<and>
            task_log st' = task_log st @ ls \<and> no_warnings ls"
proof (induction cs arbitrary: st p)
  case Nil
  show ?case
  proof (cases "p = []")
    case True
    with Nil show ?thesis by (simp add: last_chunk_def chunks_Nil no_warnings_def)
  next
    case False
    with Nil assms show ?thesis by (simp add: last_chunk_def chunks_single no_warnings_def)
  qed
next
  case (Cons c cs)
  show ?case
  proof (cases "length p = maxN")
    case True
    from set_cell_flush [OF Cons.prems(1) True assms, of env c]
    obtain st1 l where st1: "set_cell env maxN st c = Inr st1" "pending st1 [c]"
      "\<not> is_warning l" "bulk_calls st1 = bulk_calls st @ [batch_of p]"
      "task_log st1 = task_log st @ [l]" by blast
    from assms have "length [c] \<le> maxN" by simp
    from Cons.IH [OF st1(2) this]
    obtain st' ls where st': "set_cells env maxN st1 cs = Inr st'"
      "pending st' (last_chunk maxN ([c] @ cs))"
      "bulk_calls st' = bulk_calls st1 @ map batch_of (butlast (chunks maxN ([c] @ cs)))"
      "task_log st' = task_log st1 @ ls" "no_warnings ls" by blast
    have "no_warnings (l # ls)" using st1(3) st'(5) by (simp add: no_warnings_def)
    moreover have "task_log st' = task_log st @ (l # ls)" using st1(5) st'(4) by simp
    moreover have "last_chunk maxN (p @ c # cs) = last_chunk maxN ([c] @ cs)"
      using last_chunk_full [OF assms True, of "c # cs"] by simp
    moreover have "butlast (chunks maxN (p @ c # cs)) = p # butlast (chunks maxN ([c] @ cs))"
      using butlast_chunks_full [OF assms True, of "c # cs"] by simp
    ultimately show ?thesis using st1(1,4) st'(1,2,3) by (intro exI [of _ st'] exI [of _ "l # ls"]) simp
  next
    case False
    from set_cell_append [OF Cons.prems(1) False, of env c]
    obtain st1 where st1: "set_cell env maxN st c = Inr st1" "pending st1 (p @ [c])"
      "bulk_calls st1 = bulk_calls st" "task_log st1 = task_log st" by blast
    from False Cons.prems(2) have "length (p @ [c]) \<le> maxN" by simp
    from Cons.IH [OF st1(2) this]
    obtain st' ls where st': "set_cells env maxN st1 cs = Inr st'"
      "pending st' (last_chunk maxN ((p @ [c]) @ cs))"
      "bulk_calls st' = bulk_calls st1 @ map batch_of (butlast (chunks maxN ((p @ [c]) @ cs)))"
      "task_log st' = task_log st1 @ ls" "no_warnings ls" by blast
    then show ?thesis using st1(1,3,4) by (intro exI [of _ st'] exI [of _ ls]) simp
  qed
qed

lemma last_chunk_drop:
  assumes "0 < n" "drop n xs \<noteq> []"
  shows "last_chunk n xs = last_chunk n (drop n xs)"
proof -
  from assms(2) have "length (take n xs) = n" by simp
  from last_chunk_full [OF assms(1) this assms(2)] show ?thesis by simp
qed

lemma last_chunk_short: "0 < n \<Longrightarrow> drop n xs = [] \<Longrightarrow> last_chunk n xs = xs"
  by (cases "xs = []") (simp_all add: last_chunk_def chunks_single)

lemma last_chunk_length: "0 < n \<Longrightarrow> length (last_chunk n xs) \<le> n"
proof (induction n xs rule: chunks.induct)
  case (1 n xs)
  show ?case
  proof (cases "drop n xs = []")
    case True
    with 1(2) show ?thesis by (simp add: last_chunk_short)
  next
    case False
    then have "xs \<noteq> []" by auto
    with 1 have "length (last_chunk n (drop n xs)) \<le> n" by simp
    then show ?thesis using last_chunk_drop [OF 1(2) False] by simp
  qed
qed

lemma last_chunk_nonempty: "0 < n \<Longrightarrow> xs \<noteq> [] \<Longrightarrow> last_chunk n xs \<noteq> []"
proof (induction n xs rule: chunks.induct)
  case (1 n xs)
  show ?case
  proof (cases "drop n xs = []")
    case True
    with 1(2,3) show ?thesis by (simp add: last_chunk_short)
  next
    case False
    with 1 have "last_chunk n (drop n xs) \<noteq> []" by simp
    then show ?thesis using last_chunk_drop [OF 1(2) False] by simp
  qed
qed

lemma final_flush_pending:
  assumes "pending st p"
  shows "\<exists>st' ls. final_flush env st = Inr st' \<and> no_warnings ls \<and>
           task_log st' = task_log st @ ls \<and>
           bulk_calls st' = bulk_calls st @ (if p = [] then [] else [batch_of p]) \<and>
           bulk_calls st' = bulk_calls st @ (if muts st = [] then [] else [(rows st, deref st)])"
proof (cases "p = []")
  case True
  with assms have "muts st = []" using pending_length by fastforce
  with True show ?thesis
    by (intro exI [of _ st] exI [of _ "[]"]) (simp add: final_flush_def no_warnings_def)
next
  case False
  with assms have m: "muts st \<noteq> []" and r: "rows st \<noteq> []" using pending_length by fastforce+
  from apply_bulk_ok [OF r, of env] obtain l where l: "\<not> is_warning l"
    "apply_bulk env st = Inr (st\<lparr>bulk_calls := bulk_calls st @ [(rows st, deref st)],
                     task_log := task_log st @ [l]\<rparr>)" by blast
  with False m assms show ?thesis
    by (intro exI [of _ "st\<lparr>bulk_calls := bulk_calls st @ [(rows st, deref st)],
                     task_log := task_log st @ [l]\<rparr>"] exI [of _ "[l]"])
       (simp add: final_flush_def no_warnings_def pending_def batch_of_def)
qed

lemma chunks_butlast_full:
  "0 < n \<Longrightarrow> ch \<in> set (butlast (chunks n xs)) \<Longrightarrow> length ch = n"
proof (induction n xs rule: chunks.induct)
  case (1 n xs)
  show ?case
  proof (cases "drop n xs = []")
    case True
    then have "chunks n xs = [] \<or> chunks n xs = [xs]"
      using 1(2) by (cases "xs = []") (simp_all add: chunks_Nil chunks_single)
    with 1(3) show ?thesis by auto
  next
    case False
    then have ne: "xs \<noteq> []" by auto
    from False have len: "length (take n xs) = n" by simp
    from butlast_chunks_full [OF 1(2) len False]
    have "butlast (chunks n xs) = take n xs # butlast (chunks n (drop n xs))" by simp
    with 1(3) have "ch = take n xs \<or> ch \<in> set (butlast (chunks n (drop n xs)))" by simp
    then show ?thesis using len 1(1) 1(2) ne by auto
  qed
qed

lemma concat_chunks: "0 < n \<Longrightarrow> concat (chunks n xs) = xs"
proof (induction n xs rule: chunks.induct)
  case (1 n xs)
  show ?case
  proof (cases "xs = []")
    case True
    then show ?thesis by (simp add: chunks_Nil)
  next
    case False
    with 1 have "concat (chunks n (drop n xs)) = drop n xs" by simp
    with False 1(2) show ?thesis by (simp add: chunks.simps [of n xs])
  qed
qed

lemma chunks_last_chunk:
  assumes "0 < n"
  shows "butlast (chunks n xs) @ (if last_chunk n xs = [] then [] else [last_chunk n xs]) = chunks n xs"
proof (cases "xs = []")
  case True
  then show ?thesis by (simp add: chunks_Nil last_chunk_def)
next
  case False
  with assms have "chunks n xs \<noteq> []" "last_chunk n xs \<noteq> []"
    by (simp_all add: chunks_nonempty last_chunk_nonempty)
  with False show ?thesis by (simp add: last_chunk_def)
qed

text \<open>
  The state after the calls \<open>cs\<close> of \<^verbatim>\<open>set\<close>, from the empty batch: the pending
  batch is the last piece of \<open>cs\<close>, and the bulk writes are the pieces before it.
\<close>

lemma set_cells_init:
  assumes "0 < maxN"
  shows "\<exists>st ls. set_cells env maxN (init_task l) cs = Inr st \<and>
            pending st (last_chunk maxN cs) \<and>
            bulk_calls st = map batch_of (butlast (chunks maxN cs)) \<and>
            task_log st = l @ ls \<and> no_warnings ls"
proof -
  have p: "pending (init_task l) []" by (rule pending_init)
  have "length ([] :: set_call list) \<le> maxN" by simp
  from set_cells_chunks [OF assms p this, of env cs]
  show ?thesis by (simp add: init_task_def)
qed

section \<open>The batch: when it is written\<close>

text \<open>
  C4. With a positive maximum (the loader's is 100000), in the state after any
  sequence of calls of \<^verbatim>\<open>set\<close> within one task: no call panics; the pending batch
  holds at most the maximum; every bulk write issued so far carried exactly the maximum
  number of row keys and of mutations. The next call of \<^verbatim>\<open>set\<close> issues a bulk
  write exactly when the pending count equals the maximum: it then writes the whole
  pending batch and starts a new batch holding the new cell only; otherwise it issues
  none and appends the cell. At the end of the task a non-empty pending batch is written
  by one bulk write, and an empty one by none.
\<close>

theorem batch_flush_policy:
  assumes "0 < maxN"
  shows "\<exists>st. set_cells env maxN (init_task l) cs = Inr st \<and>
           length (muts st) \<le> maxN \<and> length (rows st) \<le> maxN \<and>
           (\<forall>b \<in> set (bulk_calls st). length (fst b) = maxN \<and> length (snd b) = maxN) \<and>
           (\<exists>st1. set_cell env maxN st c = Inr st1 \<and>
              (if length (muts st) = maxN
               then bulk_calls st1 = bulk_calls st @ [(rows st, deref st)] \<and>
                    muts st1 = [length (heap st)] \<and> rows st1 = [c_row c]
               else bulk_calls st1 = bulk_calls st \<and>
                    muts st1 = muts st @ [length (heap st)] \<and> rows st1 = rows st @ [c_row c])) \<and>
           (\<exists>st2. final_flush env st = Inr st2 \<and>
              bulk_calls st2 = bulk_calls st @ (if muts st = [] then [] else [(rows st, deref st)]))"
proof -
  from set_cells_init [OF assms, of env l cs]
  obtain st where st: "set_cells env maxN (init_task l) cs = Inr st"
    "pending st (last_chunk maxN cs)"
    "bulk_calls st = map batch_of (butlast (chunks maxN cs))" by blast
  let ?p = "last_chunk maxN cs"
  from pending_length [OF st(2)] have len: "length (muts st) = length ?p" "length (rows st) = length ?p"
    by simp_all
  with last_chunk_length [OF assms, of cs] have bound: "length (muts st) \<le> maxN" "length (rows st) \<le> maxN"
    by simp_all
  have full: "\<forall>b \<in> set (bulk_calls st). length (fst b) = maxN \<and> length (snd b) = maxN"
    using st(3) chunks_butlast_full [OF assms] by (auto simp: batch_of_def)
  have next_call: "\<exists>st1. set_cell env maxN st c = Inr st1 \<and>
              (if length (muts st) = maxN
               then bulk_calls st1 = bulk_calls st @ [(rows st, deref st)] \<and>
                    muts st1 = [length (heap st)] \<and> rows st1 = [c_row c]
               else bulk_calls st1 = bulk_calls st \<and>
                    muts st1 = muts st @ [length (heap st)] \<and> rows st1 = rows st @ [c_row c])"
  proof (cases "length ?p = maxN")
    case True
    from set_cell_flush [OF st(2) True assms, of env c] True len show ?thesis by auto
  next
    case False
    from set_cell_append [OF st(2) False, of env c] False len show ?thesis by auto
  qed
  from final_flush_pending [OF st(2), of env]
  have "\<exists>st2. final_flush env st = Inr st2 \<and>
              bulk_calls st2 = bulk_calls st @ (if muts st = [] then [] else [(rows st, deref st)])"
    by blast
  with st(1) bound full next_call show ?thesis by blast
qed

text \<open>
  With a maximum of zero the first call of \<^verbatim>\<open>set\<close> writes the empty batch, and
  the success line then reads \<^verbatim>\<open>rs[0]\<close> of an empty slice.
\<close>

lemma zero_maximum_panics:
  "set_cell example_env 0 (init_task []) c =
     Inl (Panic ''index out of range'',
          \<lparr>heap = [[]], muts = [], rows = [], bulk_calls = [([], [])], task_log = []\<rparr>)"
  by (simp add: set_cell_def apply_bulk_def init_task_def example_env_def Let_def)

theorem batch_flush_policy_witness:
  "(0::nat) < 2 \<and> 0 < maxMutationsPerBatch \<and>
   (\<exists>st. set_cells example_env maxMutationsPerBatch (init_task []) example_cells = Inr st \<and>
      length (muts st) = 3 \<and> bulk_calls st = []) \<and>
   set_cells example_env 2 (init_task []) example_cells =
     Inr \<lparr>heap = [[SetCell ''runs'' ''col'' 7 ''PASS''], [SetCell ''runs'' ''col'' 7 ''FAIL''],
                 [SetCell ''runs'' ''col'' 7 ''OK'']],
          muts = [2], rows = [''r3''],
          bulk_calls = [([''r1'', ''r2''],
                         [[SetCell ''runs'' ''col'' 7 ''PASS''], [SetCell ''runs'' ''col'' 7 ''FAIL'']])],
          task_log = [Info_bulk_write_success 2 ''r1'']\<rparr> \<and>
   (\<exists>st. set_cells example_env 2 (init_task []) example_cells = Inr st \<and>
      length (muts st) \<le> 2 \<and>
      (\<exists>st2. final_flush example_env st = Inr st2 \<and>
         bulk_calls st2 = bulk_calls st @ (if muts st = [] then [] else [(rows st, deref st)])))"
proof -
  have h: "(0::nat) < 2" by simp
  have e: "set_cells example_env 2 (init_task []) example_cells =
     Inr \<lparr>heap = [[SetCell ''runs'' ''col'' 7 ''PASS''], [SetCell ''runs'' ''col'' 7 ''FAIL''],
                 [SetCell ''runs'' ''col'' 7 ''OK'']],
          muts = [2], rows = [''r3''],
          bulk_calls = [([''r1'', ''r2''],
                         [[SetCell ''runs'' ''col'' 7 ''PASS''], [SetCell ''runs'' ''col'' 7 ''FAIL'']])],
          task_log = [Info_bulk_write_success 2 ''r1'']\<rparr>"
    by (simp add: example_cells_def example_env_def init_task_def set_cell_def apply_bulk_def Let_def)
  have h': "0 < maxMutationsPerBatch" by (simp add: maxMutationsPerBatch_def)
  from batch_flush_policy [OF h', of example_env "[]" example_cells "hd example_cells"]
  obtain st where st: "set_cells example_env maxMutationsPerBatch (init_task []) example_cells = Inr st"
    "\<forall>b \<in> set (bulk_calls st). length (fst b) = maxMutationsPerBatch \<and> length (snd b) = maxMutationsPerBatch"
    by blast
  have e': "set_cells example_env maxMutationsPerBatch (init_task []) example_cells =
     Inr \<lparr>heap = [[SetCell ''runs'' ''col'' 7 ''PASS''], [SetCell ''runs'' ''col'' 7 ''FAIL''],
                 [SetCell ''runs'' ''col'' 7 ''OK'']],
          muts = [0, 1, 2], rows = [''r1'', ''r2'', ''r3''], bulk_calls = [], task_log = []\<rparr>"
    by (simp add: example_cells_def example_env_def init_task_def set_cell_def Let_def
          maxMutationsPerBatch_def)
  with st have big: "\<exists>st. set_cells example_env maxMutationsPerBatch (init_task []) example_cells = Inr st \<and>
      length (muts st) = 3 \<and> bulk_calls st = []"
    by auto
  from batch_flush_policy [OF h, of example_env "[]" example_cells "hd example_cells"]
  have "\<exists>st. set_cells example_env 2 (init_task []) example_cells = Inr st \<and>
      length (muts st) \<le> 2 \<and>
      (\<exists>st2. final_flush example_env st = Inr st2 \<and>
         bulk_calls st2 = bulk_calls st @ (if muts st = [] then [] else [(rows st, deref st)]))"
    by blast
  with h h' big e show ?thesis by blast
qed

section \<open>The batch: row keys and mutations side by side\<close>

text \<open>
  C10. With a positive maximum, in the state after any sequence \<open>cs\<close> of calls of
  \<^verbatim>\<open>set\<close> within one task, the pending row keys and the pending mutations are
  equally many, and the \<open>i\<close>-th pending mutation holds the cell of the call whose row
  key is the \<open>i\<close>-th pending row key: both lists come from the same calls, the last
  piece of \<open>cs\<close>. Every bulk write, the final one included, receives the row keys and
  the mutations of one piece of consecutive calls, so its two lists are equally long and
  aligned; the pieces are those of \<open>cs\<close> cut at every multiple of the maximum.
\<close>

theorem rows_and_mutations_aligned:
  assumes "0 < maxN"
  shows "\<exists>st st'. set_cells env maxN (init_task l) cs = Inr st \<and> final_flush env st = Inr st' \<and>
           length (rows st) = length (muts st) \<and>
           zip (rows st) (deref st) = map (\<lambda>c. (c_row c, mutation_of c)) (last_chunk maxN cs) \<and>
           bulk_calls st = map batch_of (butlast (chunks maxN cs)) \<and>
           bulk_calls st' = map batch_of (chunks maxN cs) \<and>
           concat (chunks maxN cs) = cs \<and>
           (\<forall>b \<in> set (bulk_calls st'). length (fst b) = length (snd b) \<and>
              (\<exists>p. zip (fst b) (snd b) = map (\<lambda>c. (c_row c, mutation_of c)) p))"
proof -
  from set_cells_init [OF assms, of env l cs]
  obtain st where st: "set_cells env maxN (init_task l) cs = Inr st"
    "pending st (last_chunk maxN cs)"
    "bulk_calls st = map batch_of (butlast (chunks maxN cs))" by blast
  let ?p = "last_chunk maxN cs"
  from final_flush_pending [OF st(2), of env]
  obtain st' where st': "final_flush env st = Inr st'"
    "bulk_calls st' = bulk_calls st @ (if ?p = [] then [] else [batch_of ?p])" by blast
  from pending_length [OF st(2)] have len: "length (rows st) = length (muts st)" by simp
  from st(2) have "rows st = map c_row ?p" "deref st = map mutation_of ?p"
    by (simp_all add: pending_def)
  then have z: "zip (rows st) (deref st) = map (\<lambda>c. (c_row c, mutation_of c)) ?p"
    by (simp add: zip_map_map zip_same_conv_map)
  have "bulk_calls st' = map batch_of (butlast (chunks maxN cs) @ (if ?p = [] then [] else [?p]))"
    using st(3) st'(2) by simp
  then have all: "bulk_calls st' = map batch_of (chunks maxN cs)"
    by (simp only: chunks_last_chunk [OF assms])
  have aligned: "\<forall>b \<in> set (bulk_calls st'). length (fst b) = length (snd b) \<and>
              (\<exists>p. zip (fst b) (snd b) = map (\<lambda>c. (c_row c, mutation_of c)) p)"
  proof
    fix b assume "b \<in> set (bulk_calls st')"
    with all obtain p where "b = batch_of p" by auto
    then have "length (fst b) = length (snd b)"
      and "zip (fst b) (snd b) = map (\<lambda>c. (c_row c, mutation_of c)) p"
      by (simp_all add: batch_of_def zip_map_map zip_same_conv_map)
    then show "length (fst b) = length (snd b) \<and>
              (\<exists>p. zip (fst b) (snd b) = map (\<lambda>c. (c_row c, mutation_of c)) p)" by blast
  qed
  from st(1) st'(1) len z st(3) all concat_chunks [OF assms, of cs] aligned
  show ?thesis by blast
qed

theorem rows_and_mutations_aligned_witness:
  "(0::nat) < 2 \<and>
   chunks 2 example_cells = [take 2 example_cells, drop 2 example_cells] \<and>
   (\<exists>st st'. set_cells example_env 2 (init_task []) example_cells = Inr st \<and>
      final_flush example_env st = Inr st' \<and>
      zip (rows st) (deref st) = [(''r3'', [SetCell ''runs'' ''col'' 7 ''OK''])] \<and>
      bulk_calls st' =
        [([''r1'', ''r2''], [[SetCell ''runs'' ''col'' 7 ''PASS''], [SetCell ''runs'' ''col'' 7 ''FAIL'']]),
         ([''r3''], [[SetCell ''runs'' ''col'' 7 ''OK'']])])"
proof -
  have h: "(0::nat) < 2" by simp
  have c: "chunks 2 example_cells = [take 2 example_cells, drop 2 example_cells]"
    by (simp add: example_cells_def chunks.simps [of 2 "_ # _"] chunks_Nil)
  then have lc: "last_chunk 2 example_cells = drop 2 example_cells"
    by (simp add: last_chunk_def example_cells_def)
  from rows_and_mutations_aligned [OF h, of example_env "[]" example_cells]
  obtain st st' where "set_cells example_env 2 (init_task []) example_cells = Inr st"
    "final_flush example_env st = Inr st'"
    "zip (rows st) (deref st) = map (\<lambda>c. (c_row c, mutation_of c)) (last_chunk 2 example_cells)"
    "bulk_calls st' = map batch_of (chunks 2 example_cells)" by blast
  then have "set_cells example_env 2 (init_task []) example_cells = Inr st \<and>
      final_flush example_env st = Inr st' \<and>
      zip (rows st) (deref st) = [(''r3'', [SetCell ''runs'' ''col'' 7 ''OK''])] \<and>
      bulk_calls st' =
        [([''r1'', ''r2''], [[SetCell ''runs'' ''col'' 7 ''PASS''], [SetCell ''runs'' ''col'' 7 ''FAIL'']]),
         ([''r3''], [[SetCell ''runs'' ''col'' 7 ''OK'']])]"
    by (simp add: c lc) (simp add: example_cells_def batch_of_def mutation_of_def)
  with h c show ?thesis by blast
qed

section \<open>The task of one run: what it writes\<close>

lemma result_cells_nonempty: "result_cells fam run ts res \<noteq> []"
  by (simp add: result_cells_def)

lemma report_cells_nonempty: "rs \<noteq> [] \<Longrightarrow> report_cells fam run ts rs \<noteq> []"
  by (cases rs) (simp_all add: report_cells_def result_cells_nonempty)

lemma result_cells_ts: "c \<in> set (result_cells fam run ts res) \<Longrightarrow> c_ts c = ts"
  by (auto simp: result_cells_def sub_cell_def split: if_splits)

lemma report_cells_ts: "c \<in> set (report_cells fam run ts rs) \<Longrightarrow> c_ts c = ts"
  by (auto simp: report_cells_def result_cells_ts)

lemma set_cells_append:
  "set_cells env maxN st (xs @ ys) =
     (case set_cells env maxN st xs of Inl f \<Rightarrow> Inl f | Inr st' \<Rightarrow> set_cells env maxN st' ys)"
  by (induction xs arbitrary: st) (simp_all split: sum.splits)

text \<open>
  The loop over the results makes the calls of \<^verbatim>\<open>set\<close> for the results before
  the first nil entry, and panics at that entry if there is one.
\<close>

lemma results_loop_Some:
  "results_loop env maxN fam run ts st (map Some rs) =
     set_cells env maxN st (report_cells fam run ts rs)"
proof (induction rs arbitrary: st)
  case Nil
  show ?case by (simp add: report_cells_def)
next
  case (Cons r rs)
  have "report_cells fam run ts (r # rs) = result_cells fam run ts r @ report_cells fam run ts rs"
    by (simp add: report_cells_def)
  then show ?case by (simp add: set_cells_append Cons.IH split: sum.splits)
qed

lemma results_loop_nil:
  "results_loop env maxN fam run ts st (map Some rs @ None # rest) =
     (case set_cells env maxN st (report_cells fam run ts rs) of
        Inl f \<Rightarrow> Inl f
      | Inr st' \<Rightarrow> Inl (Panic ''nil pointer dereference'', st'))"
proof (induction rs arbitrary: st)
  case Nil
  show ?case by (simp add: report_cells_def)
next
  case (Cons r rs)
  have "report_cells fam run ts (r # rs) = result_cells fam run ts r @ report_cells fam run ts rs"
    by (simp add: report_cells_def)
  then show ?case by (simp add: set_cells_append Cons.IH split: sum.splits)
qed

lemma entries_split:
  "(\<exists>rs. xs = map Some rs) \<or> (\<exists>rs rest. xs = map Some rs @ None # rest)"
proof (induction xs)
  case Nil
  then show ?case by simp
next
  case (Cons x xs)
  show ?case
  proof (cases x)
    case None
    then have "x # xs = map Some [] @ None # xs" by simp
    then have "\<exists>rs rest. x # xs = map Some rs @ None # rest" by (intro exI)
    then show ?thesis by (rule disjI2)
  next
    case (Some r)
    from Cons show ?thesis
    proof
      assume "\<exists>rs. xs = map Some rs"
      then obtain rs where "xs = map Some rs" by blast
      with Some have "x # xs = map Some (r # rs)" by simp
      then have "\<exists>rs. x # xs = map Some rs" by (intro exI)
      then show ?thesis by (rule disjI1)
    next
      assume "\<exists>rs rest. xs = map Some rs @ None # rest"
      then obtain rs rest where "xs = map Some rs @ None # rest" by blast
      with Some have "x # xs = map Some (r # rs) @ None # rest" by simp
      then have "\<exists>rs rest. x # xs = map Some rs @ None # rest" by (intro exI)
      then show ?thesis by (rule disjI2)
    qed
  qed
qed

lemma run_task_skip:
  "fetch_report env run = Inl w \<Longrightarrow> run_task env maxN fam ts run = Inr (init_task [w])"
  by (simp add: run_task_def)

text \<open>
  A task whose report has no nil entry makes one bulk write for each piece of its
  cells, and logs no warning.
\<close>

lemma run_task_report:
  assumes "0 < maxN" "fetch_report env run = Inr report" "Results report = map Some rs"
  shows "\<exists>st ls. run_task env maxN fam ts run = Inr st \<and>
           bulk_calls st = map batch_of (chunks maxN (report_cells fam run ts rs)) \<and>
           task_log st = Info_gathering (length (Results report)) # ls \<and> no_warnings ls"
proof -
  let ?cs = "report_cells fam run ts rs"
  let ?p = "last_chunk maxN ?cs"
  let ?l = "[Info_gathering (length (Results report))]"
  from set_cells_init [OF assms(1), of env ?l ?cs]
  obtain st ls where st: "set_cells env maxN (init_task ?l) ?cs = Inr st"
    "pending st ?p" "bulk_calls st = map batch_of (butlast (chunks maxN ?cs))"
    "task_log st = ?l @ ls" "no_warnings ls" by blast
  from final_flush_pending [OF st(2), of env]
  obtain st' ls' where st': "final_flush env st = Inr st'" "no_warnings ls'"
    "task_log st' = task_log st @ ls'"
    "bulk_calls st' = bulk_calls st @ (if ?p = [] then [] else [batch_of ?p])" by blast
  have "bulk_calls st' = map batch_of (butlast (chunks maxN ?cs) @ (if ?p = [] then [] else [?p]))"
    using st(3) st'(4) by simp
  then have calls: "bulk_calls st' = map batch_of (chunks maxN ?cs)"
    by (simp only: chunks_last_chunk [OF assms(1)])
  have lg: "task_log st' = Info_gathering (length (Results report)) # (ls @ ls')"
    using st(4) st'(3) by simp
  have nw: "no_warnings (ls @ ls')" using st(5) st'(2) by (auto simp: no_warnings_def)
  have "results_loop env maxN fam run ts (init_task ?l) (Results report) = Inr st"
    using assms(3) st(1) by (simp add: results_loop_Some)
  then have "run_task env maxN fam ts run = Inr st'"
    using assms(2) st'(1) by (simp add: run_task_def)
  with calls lg nw show ?thesis by blast
qed

text \<open>
  A task whose report has a nil entry ends the process by a panic at that entry; what
  it has written by then are the full batches of the cells of the results before it.
\<close>

lemma run_task_nil:
  assumes "0 < maxN" "fetch_report env run = Inr report"
    "Results report = map Some rs @ None # rest"
  shows "\<exists>st ls. run_task env maxN fam ts run = Inl (Panic ''nil pointer dereference'', st) \<and>
           bulk_calls st = map batch_of (butlast (chunks maxN (report_cells fam run ts rs))) \<and>
           task_log st = Info_gathering (length (Results report)) # ls \<and> no_warnings ls"
proof -
  let ?cs = "report_cells fam run ts rs"
  let ?l = "[Info_gathering (length (Results report))]"
  from set_cells_init [OF assms(1), of env ?l ?cs]
  obtain st ls where st: "set_cells env maxN (init_task ?l) ?cs = Inr st"
    "bulk_calls st = map batch_of (butlast (chunks maxN ?cs))"
    "task_log st = ?l @ ls" "no_warnings ls" by blast
  have "results_loop env maxN fam run ts (init_task ?l) (Results report) =
          Inl (Panic ''nil pointer dereference'', st)"
    using assms(3) st(1) by (simp add: results_loop_nil)
  then have "run_task env maxN fam ts run = Inl (Panic ''nil pointer dereference'', st)"
    using assms(2) by (simp add: run_task_def)
  with st(2,3,4) show ?thesis by simp
qed

lemma in_chunk_in_list:
  assumes "0 < n" "ch \<in> set (chunks n xs)" "x \<in> set ch"
  shows "x \<in> set xs"
proof -
  from assms(2,3) have "x \<in> set (concat (chunks n xs))" by auto
  then show ?thesis by (simp add: concat_chunks [OF assms(1)])
qed

lemma batches_ts:
  assumes "0 < maxN" "set chs \<subseteq> set (chunks maxN (report_cells fam run ts rs))"
    "b \<in> set (map batch_of chs)" "m \<in> set (snd b)" "x \<in> set m"
  shows "op_ts x = ts"
proof -
  from assms(2,3) obtain ch where ch: "ch \<in> set (chunks maxN (report_cells fam run ts rs))"
    "b = batch_of ch" by auto
  with assms(4) obtain c where c: "c \<in> set ch" "m = mutation_of c" by (auto simp: batch_of_def)
  from in_chunk_in_list [OF assms(1) ch(1) c(1)] have "c_ts c = ts" by (rule report_cells_ts)
  with assms(5) c(2) show ?thesis by (simp add: mutation_of_def)
qed

text \<open>
  However a task ends, it has logged no warning once it has its report, and every cell
  it has written carries the timestamp it was given.
\<close>

lemma run_task_no_warning:
  assumes "0 < maxN" "fetch_report env run = Inr report"
  shows "\<forall>l \<in> set (task_log (task_final (run_task env maxN fam ts run))). \<not> is_warning l"
proof -
  from entries_split [of "Results report"] show ?thesis
  proof
    assume "\<exists>rs. Results report = map Some rs"
    then obtain rs where "Results report = map Some rs" by blast
    from run_task_report [OF assms this, of fam ts] show ?thesis
      by (auto simp: task_final_def no_warnings_def)
  next
    assume "\<exists>rs rest. Results report = map Some rs @ None # rest"
    then obtain rs rest where "Results report = map Some rs @ None # rest" by blast
    from run_task_nil [OF assms this, of fam ts] show ?thesis
      by (auto simp: task_final_def no_warnings_def)
  qed
qed

lemma run_task_ts:
  assumes "0 < maxN"
  shows "\<forall>b \<in> set (bulk_calls (task_final (run_task env maxN fam ts run))).
           \<forall>m \<in> set (snd b). \<forall>x \<in> set m. op_ts x = ts"
proof (cases "fetch_report env run")
  case (Inl w)
  then show ?thesis by (simp add: run_task_skip init_task_def task_final_def)
next
  case (Inr report)
  from entries_split [of "Results report"] show ?thesis
  proof
    assume "\<exists>rs. Results report = map Some rs"
    then obtain rs where rs: "Results report = map Some rs" by blast
    from run_task_report [OF assms Inr rs, of fam ts]
    obtain st where st: "run_task env maxN fam ts run = Inr st"
      "bulk_calls st = map batch_of (chunks maxN (report_cells fam run ts rs))" by blast
    have "set (chunks maxN (report_cells fam run ts rs)) \<subseteq> set (chunks maxN (report_cells fam run ts rs))"
      by simp
    from batches_ts [OF assms this] st show ?thesis by (simp add: task_final_def)
  next
    assume "\<exists>rs rest. Results report = map Some rs @ None # rest"
    then obtain rs rest where rs: "Results report = map Some rs @ None # rest" by blast
    from run_task_nil [OF assms Inr rs, of fam ts]
    obtain st where st: "run_task env maxN fam ts run = Inl (Panic ''nil pointer dereference'', st)"
      "bulk_calls st = map batch_of (butlast (chunks maxN (report_cells fam run ts rs)))" by blast
    have "set (butlast (chunks maxN (report_cells fam run ts rs))) \<subseteq> set (chunks maxN (report_cells fam run ts rs))"
      by (auto dest: in_set_butlastD)
    from batches_ts [OF assms this] st show ?thesis by (simp add: task_final_def)
  qed
qed

section \<open>Skipping a run\<close>

text \<open>
  C5. With a positive maximum batch size, the task of a run returns early, having
  logged exactly one warning and issued no bulk write, in each of five cases: the
  request fails, the status is not 200, reading the body fails, the body does not
  decode, the decoded report has no results. In each of them the task returns
  normally: it raises no fault, which is what would end the process and with it the
  other tasks. In the one remaining case (status 200, a body that decodes to a report
  with results) the task logs no warning, however it ends, and when no entry of the
  results is nil it returns having issued at least one bulk write.
\<close>

theorem skip_on_five_conditions:
  assumes "0 < maxN"
  shows
  "(http_Get env (RawResultsURL run) = NetworkError \<longrightarrow>
      run_task env maxN fam ts run = Inr (init_task [Warn_load_failed (RawResultsURL run) run])) \<and>
   (http_Get env (RawResultsURL run) = Response status body \<and> status \<noteq> 200 \<longrightarrow>
      run_task env maxN fam ts run =
        Inr (init_task [Warn_non_OK_status status (RawResultsURL run) run])) \<and>
   (http_Get env (RawResultsURL run) = Response 200 ReadError \<longrightarrow>
      run_task env maxN fam ts run = Inr (init_task [Warn_read_failed (RawResultsURL run) run])) \<and>
   (http_Get env (RawResultsURL run) = Response 200 (Data data) \<and> json_Unmarshal env data = None \<longrightarrow>
      run_task env maxN fam ts run =
        Inr (init_task [Warn_unmarshal_failed (RawResultsURL run) run])) \<and>
   (http_Get env (RawResultsURL run) = Response 200 (Data data) \<and>
    json_Unmarshal env data = Some report \<and> Results report = [] \<longrightarrow>
      run_task env maxN fam ts run =
        Inr (init_task [Warn_empty_report (runID run) (RawResultsURL run)])) \<and>
   (http_Get env (RawResultsURL run) = Response 200 (Data data) \<and>
    json_Unmarshal env data = Some report \<and> Results report \<noteq> [] \<longrightarrow>
      (\<forall>l \<in> set (task_log (task_final (run_task env maxN fam ts run))). \<not> is_warning l) \<and>
      (\<forall>rs. Results report = map Some rs \<longrightarrow>
         (\<exists>st. run_task env maxN fam ts run = Inr st \<and> bulk_calls st \<noteq> []))) \<and>
   (\<forall>w. bulk_calls (init_task [w]) = [] \<and> muts (init_task [w]) = [] \<and>
        task_log (init_task [w]) = [w])"
proof (intro conjI impI allI)
  assume "http_Get env (RawResultsURL run) = NetworkError"
  then have "fetch_report env run = Inl (Warn_load_failed (RawResultsURL run) run)"
    by (simp add: fetch_report_def)
  then show "run_task env maxN fam ts run = Inr (init_task [Warn_load_failed (RawResultsURL run) run])"
    by (rule run_task_skip)
next
  assume "http_Get env (RawResultsURL run) = Response status body \<and> status \<noteq> 200"
  then have "fetch_report env run = Inl (Warn_non_OK_status status (RawResultsURL run) run)"
    by (simp add: fetch_report_def)
  then show "run_task env maxN fam ts run =
        Inr (init_task [Warn_non_OK_status status (RawResultsURL run) run])"
    by (rule run_task_skip)
next
  assume "http_Get env (RawResultsURL run) = Response 200 ReadError"
  then have "fetch_report env run = Inl (Warn_read_failed (RawResultsURL run) run)"
    by (simp add: fetch_report_def)
  then show "run_task env maxN fam ts run = Inr (init_task [Warn_read_failed (RawResultsURL run) run])"
    by (rule run_task_skip)
next
  assume "http_Get env (RawResultsURL run) = Response 200 (Data data) \<and> json_Unmarshal env data = None"
  then have "fetch_report env run = Inl (Warn_unmarshal_failed (RawResultsURL run) run)"
    by (simp add: fetch_report_def)
  then show "run_task env maxN fam ts run =
        Inr (init_task [Warn_unmarshal_failed (RawResultsURL run) run])"
    by (rule run_task_skip)
next
  assume "http_Get env (RawResultsURL run) = Response 200 (Data data) \<and>
    json_Unmarshal env data = Some report \<and> Results report = []"
  then have "fetch_report env run = Inl (Warn_empty_report (runID run) (RawResultsURL run))"
    by (simp add: fetch_report_def)
  then show "run_task env maxN fam ts run =
        Inr (init_task [Warn_empty_report (runID run) (RawResultsURL run)])"
    by (rule run_task_skip)
next
  assume a: "http_Get env (RawResultsURL run) = Response 200 (Data data) \<and>
    json_Unmarshal env data = Some report \<and> Results report \<noteq> []"
  then have f: "fetch_report env run = Inr report" by (simp add: fetch_report_def)
  show "\<forall>l \<in> set (task_log (task_final (run_task env maxN fam ts run))). \<not> is_warning l"
    by (rule run_task_no_warning [OF assms f])
  fix rs assume rs: "Results report = map Some rs"
  from run_task_report [OF assms f rs, of fam ts]
  obtain st where st: "run_task env maxN fam ts run = Inr st"
    "bulk_calls st = map batch_of (chunks maxN (report_cells fam run ts rs))" by blast
  from a rs have "rs \<noteq> []" by auto
  then have "report_cells fam run ts rs \<noteq> []" by (rule report_cells_nonempty)
  with assms st(2) have "bulk_calls st \<noteq> []" by (simp add: chunks_nonempty)
  with st(1) show "\<exists>st. run_task env maxN fam ts run = Inr st \<and> bulk_calls st \<noteq> []" by blast
next
  fix w :: log_line
  show "bulk_calls (init_task [w]) = []" "muts (init_task [w]) = []" "task_log (init_task [w]) = [w]"
    by (simp_all add: init_task_def)
qed

lemma example_colID: "colID example_run = ''firefox-70-linux-5.0@abc123#2020-01-01T00:00:00Z''"
  by (simp add: colID_def runID_def example_run_def format_2020)

theorem skip_on_five_conditions_witness:
  "(0::nat) < 2 \<and>
   http_Get example_env (RawResultsURL example_run_404) = Response 404 (Data []) \<and>
   run_task example_env 2 ''runs'' 7 example_run_404 =
     Inr \<lparr>heap = [], muts = [], rows = [], bulk_calls = [],
          task_log = [Warn_non_OK_status 404 ''https://example.test/missing.json'' example_run_404]\<rparr> \<and>
   http_Get example_env (RawResultsURL example_run) = Response 200 (Data ''{}'') \<and>
   json_Unmarshal example_env ''{}'' = Some example_report \<and>
   Results example_report = map Some [example_result, example_result2] \<and>
   (\<exists>st. run_task example_env 2 ''runs'' 7 example_run = Inr st \<and> bulk_calls st \<noteq> [] \<and>
         (\<forall>l \<in> set (task_log st). \<not> is_warning l))"
proof -
  have h: "(0::nat) < 2" by simp
  have g1: "http_Get example_env (RawResultsURL example_run_404) = Response 404 (Data [])"
    by (simp add: example_env_def example_run_404_def example_run_def)
  have g2: "http_Get example_env (RawResultsURL example_run) = Response 200 (Data ''{}'')"
    by (simp add: example_env_def example_run_def)
  have g3: "json_Unmarshal example_env ''{}'' = Some example_report"
    by (simp add: example_env_def)
  have g4: "Results example_report \<noteq> []" by (simp add: example_report_def)
  have g5: "Results example_report = map Some [example_result, example_result2]"
    by (simp add: example_report_def)
  note t = skip_on_five_conditions [OF h, where env = example_env and fam = "''runs''" and ts = 7]
  from t [where run = example_run_404 and status = 404 and body = "Data []"] g1
  have a: "run_task example_env 2 ''runs'' 7 example_run_404 =
     Inr \<lparr>heap = [], muts = [], rows = [], bulk_calls = [],
          task_log = [Warn_non_OK_status 404 ''https://example.test/missing.json'' example_run_404]\<rparr>"
    by (simp add: init_task_def example_run_404_def example_run_def)
  from t [where run = example_run and data = "''{}''" and report = example_report] g2 g3 g4
  have nw: "\<forall>l \<in> set (task_log (task_final (run_task example_env 2 ''runs'' 7 example_run))). \<not> is_warning l"
    and wr: "\<forall>rs. Results example_report = map Some rs \<longrightarrow>
         (\<exists>st. run_task example_env 2 ''runs'' 7 example_run = Inr st \<and> bulk_calls st \<noteq> [])"
    by blast+
  from wr g5 obtain st where st: "run_task example_env 2 ''runs'' 7 example_run = Inr st"
    "bulk_calls st \<noteq> []" by blast
  with nw have "\<forall>l \<in> set (task_log st). \<not> is_warning l" by (simp add: task_final_def)
  with st have b: "\<exists>st. run_task example_env 2 ''runs'' 7 example_run = Inr st \<and> bulk_calls st \<noteq> [] \<and>
         (\<forall>l \<in> set (task_log st). \<not> is_warning l)"
    by blast
  from h g1 a g2 g3 g5 b show ?thesis by blast
qed

section \<open>The timestamp of a pass\<close>

text \<open>
  C6. In a pass, the timestamp is the first reading of \<^verbatim>\<open>bigtable.Now()\<close>, taken
  before the runs are read and before any task exists, and it is the timestamp of every
  cell in every mutation of every bulk write of every task of the pass, however the task
  ends; no later reading of the clock appears in any cell.
\<close>

theorem single_ingestion_timestamp:
  assumes "main_pass w fam = Some (Inr p)"
  shows "pass_ts p = bigtable_Now w 0 \<and>
         (\<forall>t \<in> set (pass_tasks p).
            \<forall>b \<in> set (bulk_calls (task_final t)). \<forall>m \<in> set (snd b). \<forall>x \<in> set m.
               op_ts x = bigtable_Now w 0)"
proof
  from assms show ts: "pass_ts p = bigtable_Now w 0"
    by (auto simp: main_pass_def Let_def split: sum.splits option.splits)
  have pos: "0 < maxMutationsPerBatch" by (simp add: maxMutationsPerBatch_def)
  show "\<forall>t \<in> set (pass_tasks p).
            \<forall>b \<in> set (bulk_calls (task_final t)). \<forall>m \<in> set (snd b). \<forall>x \<in> set m.
               op_ts x = bigtable_Now w 0"
  proof
    fix t assume "t \<in> set (pass_tasks p)"
    with assms obtain e r where "t = run_task e maxMutationsPerBatch fam (bigtable_Now w 0) r"
      by (auto simp: main_pass_def Let_def split: sum.splits option.splits)
    with run_task_ts [OF pos, of e fam "bigtable_Now w 0" r]
    show "\<forall>b \<in> set (bulk_calls (task_final t)). \<forall>m \<in> set (snd b). \<forall>x \<in> set m.
               op_ts x = bigtable_Now w 0" by simp
  qed
qed

lemma example_getRuns:
  "getRuns (\<lambda>q. example_iterator) = Some (Inr ([11, 12], [example_run, example_run_404]))"
  by (simp add: getRuns_def getRuns_loop.simps example_iterator_def)

lemma example_main_pass: "main_pass example_world ''runs'' = Some (Inr example_pass)"
  by (simp add: main_pass_def example_world_def example_getRuns example_pass_def)

lemma example_task:
  "run_task example_env maxMutationsPerBatch ''runs'' 1000 example_run =
     Inr \<lparr>heap = [[SetCell ''runs'' ''firefox-70-linux-5.0@abc123#2020-01-01T00:00:00Z'' 1000 ''OK$PASS''],
                 [SetCell ''runs'' ''firefox-70-linux-5.0@abc123#2020-01-01T00:00:00Z'' 1000 ''OK$FAIL#boom''],
                 [SetCell ''runs'' ''firefox-70-linux-5.0@abc123#2020-01-01T00:00:00Z'' 1000 ''ERROR#late'']],
          muts = [0, 1, 2], rows = [''/dom/a.html'', ''/dom/a.html'', ''/dom/b.html''],
          bulk_calls =
            [([''/dom/a.html'', ''/dom/a.html'', ''/dom/b.html''],
              [[SetCell ''runs'' ''firefox-70-linux-5.0@abc123#2020-01-01T00:00:00Z'' 1000 ''OK$PASS''],
               [SetCell ''runs'' ''firefox-70-linux-5.0@abc123#2020-01-01T00:00:00Z'' 1000 ''OK$FAIL#boom''],
               [SetCell ''runs'' ''firefox-70-linux-5.0@abc123#2020-01-01T00:00:00Z'' 1000 ''ERROR#late'']])],
          task_log = [Info_gathering 2, Info_bulk_write_success 3 ''/dom/a.html'']\<rparr>"
proof -
  have f: "fetch_report example_env example_run = Inr example_report"
    by (simp add: fetch_report_def example_env_def example_run_def example_report_def)
  have c: "report_cells ''runs'' example_run 1000 [example_result, example_result2] =
    [\<lparr>c_row = ''/dom/a.html'', c_family = ''runs'',
      c_column = ''firefox-70-linux-5.0@abc123#2020-01-01T00:00:00Z'', c_ts = 1000,
      c_value = ''OK$PASS''\<rparr>,
     \<lparr>c_row = ''/dom/a.html'', c_family = ''runs'',
      c_column = ''firefox-70-linux-5.0@abc123#2020-01-01T00:00:00Z'', c_ts = 1000,
      c_value = ''OK$FAIL#boom''\<rparr>,
     \<lparr>c_row = ''/dom/b.html'', c_family = ''runs'',
      c_column = ''firefox-70-linux-5.0@abc123#2020-01-01T00:00:00Z'', c_ts = 1000,
      c_value = ''ERROR#late''\<rparr>]"
    by (simp add: report_cells_def result_cells_def sub_cell_def rowID_def has_message_def
          example_colID example_result_def example_result2_def)
  have rs: "Results example_report = map Some [example_result, example_result2]"
    by (simp add: example_report_def)
  have loop: "results_loop example_env maxMutationsPerBatch ''runs'' example_run 1000
                (init_task [Info_gathering 2]) (Results example_report) =
              set_cells example_env maxMutationsPerBatch (init_task [Info_gathering 2])
                (report_cells ''runs'' example_run 1000 [example_result, example_result2])"
    unfolding rs by (rule results_loop_Some)
  have len: "length (Results example_report) = 2" by (simp add: example_report_def)
  show ?thesis
    by (simp add: run_task_def f len loop c)
       (simp add: init_task_def set_cell_def final_flush_def apply_bulk_def Let_def
          maxMutationsPerBatch_def example_env_def)
qed

text \<open>A report with a \<^verbatim>\<open>null\<close> as its second result: the task panics there.\<close>

lemma example_null_entry:
  "run_task null_entry_env 2 ''runs'' 7 example_run =
     Inl (Panic ''nil pointer dereference'',
          \<lparr>heap = [[SetCell ''runs'' ''firefox-70-linux-5.0@abc123#2020-01-01T00:00:00Z'' 7 ''OK$PASS''],
                  [SetCell ''runs'' ''firefox-70-linux-5.0@abc123#2020-01-01T00:00:00Z'' 7 ''OK$FAIL#boom'']],
           muts = [0, 1], rows = [''/dom/a.html'', ''/dom/a.html''], bulk_calls = [],
           task_log = [Info_gathering 3]\<rparr>)"
  by (simp add: run_task_def fetch_report_def null_entry_env_def example_env_def
        result_cells_def sub_cell_def rowID_def has_message_def example_result_def
        example_colID init_task_def set_cell_def Let_def)
     (simp add: example_run_def)

theorem single_ingestion_timestamp_witness:
  "main_pass example_world ''runs'' = Some (Inr example_pass) \<and>
   bigtable_Now example_world 0 = 1000 \<and> bigtable_Now example_world 1 = 1001 \<and>
   pass_ts example_pass = 1000 \<and>
   (\<exists>st. run_task example_env maxMutationsPerBatch ''runs'' 1000 example_run = Inr st \<and>
      map (\<lambda>b. map (map op_ts) (snd b)) (bulk_calls st) = [[[1000], [1000], [1000]]] \<and>
      (\<forall>b \<in> set (bulk_calls st). \<forall>m \<in> set (snd b). \<forall>x \<in> set m. op_ts x = 1000))"
proof -
  note h = example_main_pass
  have n: "bigtable_Now example_world 0 = 1000" "bigtable_Now example_world 1 = 1001"
    by (simp_all add: example_world_def)
  from single_ingestion_timestamp [OF h] n(1)
  have ts: "pass_ts example_pass = 1000"
    and all: "\<forall>t \<in> set (pass_tasks example_pass).
            \<forall>b \<in> set (bulk_calls (task_final t)). \<forall>m \<in> set (snd b). \<forall>x \<in> set m. op_ts x = 1000"
    by simp_all
  obtain st where st: "run_task example_env maxMutationsPerBatch ''runs'' 1000 example_run = Inr st"
    using example_task by blast
  have "run_task example_env maxMutationsPerBatch ''runs'' 1000 example_run \<in> set (pass_tasks example_pass)"
    by (simp add: example_pass_def)
  with all st have c: "\<forall>b \<in> set (bulk_calls st). \<forall>m \<in> set (snd b). \<forall>x \<in> set m. op_ts x = 1000"
    by (auto simp: task_final_def)
  from st have m: "map (\<lambda>b. map (map op_ts) (snd b)) (bulk_calls st) = [[[1000], [1000], [1000]]]"
    by (auto simp: example_task)
  from st m c have "\<exists>st. run_task example_env maxMutationsPerBatch ''runs'' 1000 example_run = Inr st \<and>
      map (\<lambda>b. map (map op_ts) (snd b)) (bulk_calls st) = [[[1000], [1000], [1000]]] \<and>
      (\<forall>b \<in> set (bulk_calls st). \<forall>m \<in> set (snd b). \<forall>x \<in> set m. op_ts x = 1000)"
    by (intro exI [of _ st]) simp
  with h n ts show ?thesis by simp
qed

section \<open>Enumerating the runs: all of them, or a fatal error\<close>

lemma getRuns_loop_prefix:
  "(\<forall>i < length es. it (n + i) = Entity (fst (es ! i)) (snd (es ! i))) \<Longrightarrow>
   getRuns_loop it n keys rs =
   getRuns_loop it (n + length es) (keys @ map fst es) (rs @ map snd es)"
proof (induction es arbitrary: n keys rs)
  case Nil
  then show ?case by simp
next
  case (Cons e es)
  from Cons.prems have e: "it n = Entity (fst e) (snd e)" by force
  have "\<forall>i < length es. it (Suc n + i) = Entity (fst (es ! i)) (snd (es ! i))"
  proof (intro allI impI)
    fix i assume "i < length es"
    then have "Suc i < length (e # es)" by simp
    with Cons.prems have "it (n + Suc i) = Entity (fst ((e # es) ! Suc i)) (snd ((e # es) ! Suc i))"
      by blast
    then show "it (Suc n + i) = Entity (fst (es ! i)) (snd (es ! i))" by simp
  qed
  from Cons.IH [OF this, of "keys @ [fst e]" "rs @ [snd e]"] e show ?case
    by (subst getRuns_loop.simps) simp
qed

lemma getRuns_loop_Done:
  assumes "yields it es" "it (length es) = Done"
  shows "getRuns_loop it 0 [] [] = Some (Inr (map fst es, map snd es))"
proof -
  from assms(1) have "\<forall>i < length es. it (0 + i) = Entity (fst (es ! i)) (snd (es ! i))"
    by (simp add: yields_def)
  from getRuns_loop_prefix [OF this, of "[]" "[]"] assms(2) show ?thesis
    by (simp add: getRuns_loop.simps [of it "length es"])
qed

lemma getRuns_loop_Failed:
  assumes "yields it es" "it (length es) = Failed e"
  shows "getRuns_loop it 0 [] [] = Some (Inl (Fatal e))"
proof -
  from assms(1) have "\<forall>i < length es. it (0 + i) = Entity (fst (es ! i)) (snd (es ! i))"
    by (simp add: yields_def)
  from getRuns_loop_prefix [OF this, of "[]" "[]"] assms(2) show ?thesis
    by (simp add: getRuns_loop.simps [of it "length es"])
qed

lemma getRuns_loop_returns:
  assumes "getRuns_loop it n keys rs = Some y"
  shows "\<exists>m. \<not> is_Entity (it m)"
proof (rule getRuns_loop.raw_induct
         [where P = "\<lambda>it n keys rs y. \<exists>m. \<not> is_Entity (it m)", OF _ assms])
  fix loop it n keys rs y
  assume IH: "\<And>it n keys rs y. loop it n keys rs = Some y \<Longrightarrow> \<exists>m. \<not> is_Entity (it m)"
    and step: "(case it n of
                  Done \<Rightarrow> Some (Inr (keys, rs))
                | Failed e \<Rightarrow> Some (Inl (Fatal e))
                | Entity key testRun \<Rightarrow> loop it (Suc n) (keys @ [key]) (rs @ [testRun])) = Some y"
  show "\<exists>m. \<not> is_Entity (it m)"
  proof (cases "it n")
    case Done
    then have "\<not> is_Entity (it n)" by simp
    then show ?thesis by blast
  next
    case (Failed e)
    then have "\<not> is_Entity (it n)" by simp
    then show ?thesis by blast
  next
    case (Entity key r)
    with step have "loop it (Suc n) (keys @ [key]) (rs @ [r]) = Some y" by simp
    then show ?thesis by (rule IH)
  qed
qed

lemma first_stop:
  assumes "\<not> is_Entity (it m)"
  shows "\<exists>es. yields it es \<and> \<not> is_Entity (it (length es))"
proof -
  define n where "n = (LEAST m. \<not> is_Entity (it m))"
  have stop: "\<not> is_Entity (it n)" unfolding n_def using assms by (rule LeastI)
  have before: "is_Entity (it i)" if "i < n" for i
    using that not_less_Least unfolding n_def by blast
  define es where "es = map (\<lambda>i. case it i of Entity key r \<Rightarrow> (key, r) | _ \<Rightarrow> undefined) [0..<n]"
  have len: "length es = n" by (simp add: es_def)
  have "yields it es"
    unfolding yields_def
  proof (intro allI impI)
    fix i assume "i < length es"
    with len have i: "i < n" by simp
    then obtain key r where "it i = Entity key r" using before [OF i] by (cases "it i") auto
    with i show "it i = Entity (fst (es ! i)) (snd (es ! i))"
      by (simp add: es_def)
  qed
  with stop len show ?thesis by blast
qed

lemma getRuns_loop_Inr:
  assumes "getRuns_loop it 0 [] [] = Some (Inr (keys, rs))"
  shows "yields it (zip keys rs) \<and> length keys = length rs \<and> it (length rs) = Done"
proof -
  from getRuns_loop_returns [OF assms] obtain m where "\<not> is_Entity (it m)" by blast
  then obtain es where es: "yields it es" "\<not> is_Entity (it (length es))"
    using first_stop [of it m] by blast
  show ?thesis
  proof (cases "it (length es)")
    case Done
    from getRuns_loop_Done [OF es(1) Done] assms have "keys = map fst es" "rs = map snd es"
      by simp_all
    then have "zip keys rs = es" by (simp add: zip_map_fst_snd)
    with es(1) Done \<open>keys = map fst es\<close> \<open>rs = map snd es\<close> show ?thesis by simp
  next
    case (Failed e)
    from getRuns_loop_Failed [OF es(1) Failed] assms show ?thesis by simp
  next
    case (Entity key r)
    with es(2) show ?thesis by simp
  qed
qed

lemma getRuns_loop_Inl:
  assumes "getRuns_loop it 0 [] [] = Some (Inl f)"
  shows "\<exists>es e. yields it es \<and> it (length es) = Failed e \<and> f = Fatal e"
proof -
  from getRuns_loop_returns [OF assms] obtain m where "\<not> is_Entity (it m)" by blast
  then obtain es where es: "yields it es" "\<not> is_Entity (it (length es))"
    using first_stop [of it m] by blast
  show ?thesis
  proof (cases "it (length es)")
    case Done
    from getRuns_loop_Done [OF es(1) Done] assms show ?thesis by simp
  next
    case (Failed e)
    from getRuns_loop_Failed [OF es(1) Failed] assms have "f = Fatal e" by simp
    with es(1) Failed show ?thesis by blast
  next
    case (Entity key r)
    with es(2) show ?thesis by simp
  qed
qed

lemma getRuns_loop_endless:
  assumes "\<forall>n. is_Entity (it n)"
  shows "getRuns_loop it n keys rs = None"
proof (cases "getRuns_loop it n keys rs")
  case None
  then show ?thesis .
next
  case (Some y)
  from getRuns_loop_returns [OF Some] assms show ?thesis by blast
qed

text \<open>
  C7. \<^verbatim>\<open>getRuns\<close> runs one query, for the kind \<open>TestRun\<close> ordered by \<open>CreatedAt\<close>
  ascending, and reads its iterator to the end. When the iterator yields the entities
  \<open>es\<close> and then reports that it is done, the result is all of \<open>es\<close>, keys and runs
  in the iterator's order. When it yields \<open>es\<close> and then fails, the process ends with
  a fatal error. A list of runs is returned only when the iterator was read up to its
  end, so it is never a part of the result set; a fatal error only comes from a failure
  of the iterator; and while the iterator keeps yielding entities the function does not
  return.
\<close>

theorem getRuns_all_or_fatal:
  assumes "it = client_Run (Order ''CreatedAt'' (NewQuery ''TestRun''))"
  shows
  "Order ''CreatedAt'' (NewQuery ''TestRun'') =
     \<lparr>q_kind = ''TestRun'', q_order = [(''CreatedAt'', Ascending)]\<rparr> \<and>
   (yields it es \<and> it (length es) = Done \<longrightarrow>
      getRuns client_Run = Some (Inr (map fst es, map snd es))) \<and>
   (yields it es \<and> it (length es) = Failed e \<longrightarrow>
      getRuns client_Run = Some (Inl (Fatal e))) \<and>
   (getRuns client_Run = Some (Inr (keys, runs)) \<longrightarrow>
      length keys = length runs \<and> yields it (zip keys runs) \<and> it (length runs) = Done) \<and>
   (getRuns client_Run = Some (Inl f) \<longrightarrow>
      (\<exists>es e. yields it es \<and> it (length es) = Failed e \<and> f = Fatal e)) \<and>
   ((\<forall>n. is_Entity (it n)) \<longrightarrow> getRuns client_Run = None)"
proof (intro conjI impI)
  show "Order ''CreatedAt'' (NewQuery ''TestRun'') =
     \<lparr>q_kind = ''TestRun'', q_order = [(''CreatedAt'', Ascending)]\<rparr>"
    by (simp add: Order_def NewQuery_def)
next
  assume "yields it es \<and> it (length es) = Done"
  then show "getRuns client_Run = Some (Inr (map fst es, map snd es))"
    using getRuns_loop_Done [of it es] assms by (simp add: getRuns_def)
next
  assume "yields it es \<and> it (length es) = Failed e"
  then show "getRuns client_Run = Some (Inl (Fatal e))"
    using getRuns_loop_Failed [of it es e] assms by (simp add: getRuns_def)
next
  assume "getRuns client_Run = Some (Inr (keys, runs))"
  then have "getRuns_loop it 0 [] [] = Some (Inr (keys, runs))"
    using assms by (simp add: getRuns_def)
  from getRuns_loop_Inr [OF this]
  show "length keys = length runs" "yields it (zip keys runs)" "it (length runs) = Done"
    by simp_all
next
  assume "getRuns client_Run = Some (Inl f)"
  then have "getRuns_loop it 0 [] [] = Some (Inl f)"
    using assms by (simp add: getRuns_def)
  then show "\<exists>es e. yields it es \<and> it (length es) = Failed e \<and> f = Fatal e"
    by (rule getRuns_loop_Inl)
next
  assume "\<forall>n. is_Entity (it n)"
  then show "getRuns client_Run = None"
    using getRuns_loop_endless [of it 0 "[]" "[]"] assms by (simp add: getRuns_def)
qed

theorem getRuns_all_or_fatal_witness:
  "yields example_iterator [(11, example_run), (12, example_run_404)] \<and>
   example_iterator 2 = Done \<and>
   getRuns (\<lambda>q. example_iterator) = Some (Inr ([11, 12], [example_run, example_run_404])) \<and>
   yields failing_iterator [(11, example_run)] \<and>
   failing_iterator 1 = Failed ''deadline exceeded'' \<and>
   getRuns (\<lambda>q. failing_iterator) = Some (Inl (Fatal ''deadline exceeded''))"
proof -
  have y1: "yields example_iterator [(11, example_run), (12, example_run_404)]"
    by (simp add: yields_def example_iterator_def less_Suc_eq)
  have d1: "example_iterator 2 = Done" "example_iterator (Suc (Suc 0)) = Done"
    by (simp_all add: example_iterator_def)
  have y2: "yields failing_iterator [(11, example_run)]"
    by (simp add: yields_def failing_iterator_def)
  have d2: "failing_iterator 1 = Failed ''deadline exceeded''"
    "failing_iterator (Suc 0) = Failed ''deadline exceeded''"
    by (simp_all add: failing_iterator_def)
  have a: "getRuns (\<lambda>q. example_iterator) = Some (Inr ([11, 12], [example_run, example_run_404]))"
    using getRuns_all_or_fatal [where client_Run = "\<lambda>q. example_iterator" and it = example_iterator
        and es = "[(11, example_run), (12, example_run_404)]"] y1 d1
    by simp
  have b: "getRuns (\<lambda>q. failing_iterator) = Some (Inl (Fatal ''deadline exceeded''))"
    using getRuns_all_or_fatal [where client_Run = "\<lambda>q. failing_iterator" and it = failing_iterator
        and es = "[(11, example_run)]" and e = "''deadline exceeded''"] y2 d2
    by simp
  from y1 d1(1) a y2 d2(1) b show ?thesis by simp
qed

section \<open>The memory monitor: fatal above the threshold, running otherwise\<close>

lemma monitor_running:
  "(\<forall>i < k. HeapAlloc i \<le> maxHeapAlloc) \<Longrightarrow> monitor HeapAlloc k = Running (samples_trace HeapAlloc k)"
proof (induction k)
  case 0
  show ?case by (simp add: samples_trace_def)
next
  case (Suc k)
  then have "monitor HeapAlloc k = Running (samples_trace HeapAlloc k)" by simp
  moreover from Suc.prems have "\<not> HeapAlloc k > maxHeapAlloc" by (simp add: not_less)
  ultimately show ?case by (simp add: samples_trace_def)
qed

lemma monitor_exited:
  assumes "\<forall>i < n. HeapAlloc i \<le> maxHeapAlloc" "HeapAlloc n > maxHeapAlloc"
  shows "n < k \<Longrightarrow> monitor HeapAlloc k = Exited (Fatal ''ERRO: Out of memory'') (samples_trace HeapAlloc n)"
proof (induction k)
  case 0
  then show ?case by simp
next
  case (Suc k)
  show ?case
  proof (cases "n = k")
    case True
    with assms monitor_running [of n HeapAlloc] show ?thesis by simp
  next
    case False
    with Suc show ?thesis by simp
  qed
qed

text \<open>
  C9. The threshold is 45000000000 bytes and the pause 2 seconds. In each iteration
  of the loop that is reached, the monitor reads the heap allocation; above the
  threshold it ends the process by a fatal error, and otherwise it logs the sample,
  sleeps for the pause and goes on. So as long as no sample has been above the
  threshold, after any number \<open>k\<close> of iterations the monitor is running, having
  logged each of the \<open>k\<close> samples and slept after each; and once the sample \<open>n\<close> is
  the first above the threshold, the process has ended by the fatal error at any later
  iteration, having logged the \<open>n\<close> samples before.
\<close>

theorem memory_guard:
  "((\<forall>i < k. HeapAlloc i \<le> maxHeapAlloc) \<longrightarrow>
      monitor HeapAlloc k = Running (samples_trace HeapAlloc k)) \<and>
   ((\<forall>i < n. HeapAlloc i \<le> maxHeapAlloc) \<and> maxHeapAlloc < HeapAlloc n \<and> n < k \<longrightarrow>
      monitor HeapAlloc k = Exited (Fatal ''ERRO: Out of memory'') (samples_trace HeapAlloc n)) \<and>
   (monitor HeapAlloc k = Running trace \<longrightarrow>
      monitor HeapAlloc (Suc k) =
        (if maxHeapAlloc < HeapAlloc k then Exited (Fatal ''ERRO: Out of memory'') trace
         else Running (trace @ [Logged (Info_monitor_OK (HeapAlloc k)), Slept monitorSleep]))) \<and>
   samples_trace HeapAlloc (Suc k) =
     samples_trace HeapAlloc k @ [Logged (Info_monitor_OK (HeapAlloc k)), Slept monitorSleep] \<and>
   unat maxHeapAlloc = 45000000000 \<and> monitorSleep = 2 * 10 ^ 9"
proof (intro conjI impI)
  assume "\<forall>i < k. HeapAlloc i \<le> maxHeapAlloc"
  then show "monitor HeapAlloc k = Running (samples_trace HeapAlloc k)" by (rule monitor_running)
next
  assume "(\<forall>i < n. HeapAlloc i \<le> maxHeapAlloc) \<and> maxHeapAlloc < HeapAlloc n \<and> n < k"
  then show "monitor HeapAlloc k = Exited (Fatal ''ERRO: Out of memory'') (samples_trace HeapAlloc n)"
    using monitor_exited [of n HeapAlloc k] by blast
next
  assume "monitor HeapAlloc k = Running trace"
  then show "monitor HeapAlloc (Suc k) =
        (if maxHeapAlloc < HeapAlloc k then Exited (Fatal ''ERRO: Out of memory'') trace
         else Running (trace @ [Logged (Info_monitor_OK (HeapAlloc k)), Slept monitorSleep]))"
    by simp
next
  show "samples_trace HeapAlloc (Suc k) =
     samples_trace HeapAlloc k @ [Logged (Info_monitor_OK (HeapAlloc k)), Slept monitorSleep]"
    by (simp add: samples_trace_def)
next
  show "unat maxHeapAlloc = 45000000000" by (simp add: maxHeapAlloc_def)
next
  show "monitorSleep = 2 * 10 ^ 9" by (simp add: monitorSleep_def)
qed

theorem memory_guard_witness:
  "example_heap 0 = 1000 \<and> example_heap 1 = 1000 \<and> example_heap 2 = 46000000000 \<and>
   (1000 :: 64 word) \<le> maxHeapAlloc \<and> maxHeapAlloc < 46000000000 \<and>
   monitor example_heap 2 =
     Running [Logged (Info_monitor_OK 1000), Slept 2000000000,
              Logged (Info_monitor_OK 1000), Slept 2000000000] \<and>
   monitor example_heap 5 =
     Exited (Fatal ''ERRO: Out of memory'')
       [Logged (Info_monitor_OK 1000), Slept 2000000000,
        Logged (Info_monitor_OK 1000), Slept 2000000000]"
proof -
  have v: "example_heap 0 = 1000" "example_heap 1 = 1000" "example_heap 2 = 46000000000"
    by (simp_all add: example_heap_def)
  have c: "(1000 :: 64 word) \<le> maxHeapAlloc" "maxHeapAlloc < 46000000000"
    by (simp_all add: maxHeapAlloc_def)
  have ok: "\<forall>i < 2. example_heap i \<le> maxHeapAlloc"
    using c(1) by (simp add: example_heap_def)
  have tr: "samples_trace example_heap 2 =
      [Logged (Info_monitor_OK 1000), Slept 2000000000,
       Logged (Info_monitor_OK 1000), Slept 2000000000]"
    by (simp add: samples_trace_def numeral_2_eq_2 example_heap_def monitorSleep_def)
  note t = memory_guard [where HeapAlloc = example_heap]
  from t [where k = 2] ok tr
  have a: "monitor example_heap 2 =
     Running [Logged (Info_monitor_OK 1000), Slept 2000000000,
              Logged (Info_monitor_OK 1000), Slept 2000000000]" by simp
  have "(\<forall>i < 2. example_heap i \<le> maxHeapAlloc) \<and> maxHeapAlloc < example_heap 2 \<and> (2::nat) < 5"
    using ok c(2) v(3) by simp
  with t [where k = 5 and n = 2] tr
  have b: "monitor example_heap 5 =
     Exited (Fatal ''ERRO: Out of memory'')
       [Logged (Info_monitor_OK 1000), Slept 2000000000,
        Logged (Info_monitor_OK 1000), Slept 2000000000]" by simp
  from v c a b show ?thesis by simp
qed

section \<open>Scheduling: main can finish before the tasks\<close>

text \<open>
  \<^verbatim>\<open>main\<close> alone, from the point where it has spawned the tasks of the first \<open>k\<close>
  runs and none of them has moved: it spawns the other tasks and acquires the whole
  capacity.
\<close>

lemma main_runs_ahead:
  "n - k = d \<Longrightarrow> k \<le> n \<Longrightarrow>
   run_schedule cap n (replicate (Suc d) MainThread)
     \<lparr>s_main = M_spawn k, s_tasks = replicate k T_acquire, s_cur = 0, s_waiters = []\<rparr> =
   Some \<lparr>s_main = M_finished, s_tasks = replicate n T_acquire, s_cur = cap, s_waiters = []\<rparr>"
proof (induction d arbitrary: k)
  case 0
  then have "k = n" by simp
  then show ?case by (simp add: Acquire_def)
next
  case (Suc d)
  then have k: "k < n" "n - Suc k = d" "Suc k \<le> n" by simp_all
  have "replicate k T_acquire @ [T_acquire] = replicate (Suc k) T_acquire"
    by (simp add: replicate_append_same)
  with Suc.IH [OF k(2,3)] k(1) show ?case by simp
qed

text \<open>
  C3. For a list of \<open>n\<close> runs, \<^verbatim>\<open>main\<close> may take \<open>n + 1\<close> steps in a row:
  it spawns the \<open>n\<close> tasks, and then calls
  \<^verbatim>\<open>sem.Acquire(ctx, numConcurrentRuns)\<close> while no task has reached its own
  \<^verbatim>\<open>sem.Acquire(ctx, 1)\<close>. No unit is taken and nobody waits, so the call returns
  at once: \<^verbatim>\<open>main\<close> logs that it has finished and returns while no task has
  started; with one run this is the schedule main, main. With two runs, a task that
  reaches its \<^verbatim>\<open>Acquire\<close> while \<^verbatim>\<open>main\<close> waits in the queue is queued behind
  it; when the running task releases its unit, \<^verbatim>\<open>main\<close> gets the whole capacity
  and finishes while the queued task has not started. So the acquisition of the whole
  capacity can succeed before every spawned task has completed.
\<close>

theorem main_finishes_before_tasks:
  "run_schedule numConcurrentRuns 1 [MainThread, MainThread] sched_init =
     Some \<lparr>s_main = M_finished, s_tasks = [T_acquire], s_cur = 100, s_waiters = []\<rparr> \<and>
   run_schedule numConcurrentRuns 2
     [MainThread, MainThread, TaskThread 0, MainThread, TaskThread 1, TaskThread 0] sched_init =
     Some \<lparr>s_main = M_finished, s_tasks = [T_returned, T_blocked], s_cur = 100,
           s_waiters = [(TaskThread 1, 1)]\<rparr> \<and>
   (\<forall>n. run_schedule numConcurrentRuns n (replicate (Suc n) MainThread) sched_init =
     Some \<lparr>s_main = M_finished, s_tasks = replicate n T_acquire, s_cur = 100, s_waiters = []\<rparr>)"
proof (intro conjI allI)
  show "run_schedule numConcurrentRuns 1 [MainThread, MainThread] sched_init =
     Some \<lparr>s_main = M_finished, s_tasks = [T_acquire], s_cur = 100, s_waiters = []\<rparr>"
    by (simp add: sched_init_def Acquire_def numConcurrentRuns_def)
next
  show "run_schedule numConcurrentRuns 2
     [MainThread, MainThread, TaskThread 0, MainThread, TaskThread 1, TaskThread 0] sched_init =
     Some \<lparr>s_main = M_finished, s_tasks = [T_returned, T_blocked], s_cur = 100,
           s_waiters = [(TaskThread 1, 1)]\<rparr>"
    by (simp add: sched_init_def Acquire_def Release_def numConcurrentRuns_def)
next
  fix n :: nat
  have "n - 0 = n" "0 \<le> n" by simp_all
  from main_runs_ahead [OF this, of numConcurrentRuns]
  show "run_schedule numConcurrentRuns n (replicate (Suc n) MainThread) sched_init =
     Some \<lparr>s_main = M_finished, s_tasks = replicate n T_acquire, s_cur = 100, s_waiters = []\<rparr>"
    by (simp add: sched_init_def numConcurrentRuns_def)
qed

end
